theory Spec2Isabelle
  imports Main "HOL-Library.Word"
begin

section \<open>The instance queue of the inference server core\<close>

text \<open>The source is \<^verbatim>\<open>src/instance_queue.cc\<close>.\<close>

text \<open>
  The queue holds \<open>std::shared_ptr<Payload>\<close> values. A shared pointer is modelled by
  the identity of the object it points to (a \<open>handle\<close>), and the payload objects live in a
  store that maps each handle to the object's current contents, so that a payload reached
  through two pointers is one object, as in the source. Every handle points to a payload:
  a null pointer is not a handle.
  \<open>uint64_t\<close> is a 64-bit word, and so is \<open>size_t\<close>, as on the 64-bit platforms the
  server is built for: \<open>+\<close> and \<open>-\<close> wrap around.
\<close>

type_synonym handle = nat
type_synonym uint64_t = "64 word"
type_synonym size_t = "64 word"

subsection \<open>Payload (declared in payload.h)\<close>

text \<open>
  Modelled from the spec: the enumeration \<open>Payload::State\<close> (payload.h is not part of the
  sources at hand). The queue only ever writes \<open>EXECUTING\<close>; the specification names the
  states "QUEUED, EXECUTING, (terminal states owned by the executor)".
\<close>

datatype State = QUEUED | EXECUTING | TERMINAL

text \<open>
  Modelled from the spec: the class \<open>Payload\<close> (payload.h is not part of the sources at
  hand), with the four attributes of the specification's data model: the lifecycle state,
  the batch size, the saturated flag and the timestamp \<open>batcher_start_ns\<close>.
\<close>

record Payload =
  payload_state :: State
  payload_batch_size :: size_t
  payload_saturated :: bool
  payload_batcher_start_ns :: uint64_t

type_synonym store = "handle \<Rightarrow> Payload"

text \<open>Modelled from the spec: the accessors of \<open>Payload\<close> that the queue calls.\<close>

definition SetState :: "State \<Rightarrow> Payload \<Rightarrow> Payload" where
  "SetState s p = p\<lparr>payload_state := s\<rparr>"

definition IsSaturated :: "Payload \<Rightarrow> bool" where
  "IsSaturated p = payload_saturated p"

definition BatchSize :: "Payload \<Rightarrow> size_t" where
  "BatchSize p = payload_batch_size p"

definition BatcherStartNs :: "Payload \<Rightarrow> uint64_t" where
  "BatcherStartNs p = payload_batcher_start_ns p"

text \<open>
  Modelled from the spec: \<open>Payload::MergePayload\<close> (payload.cc is not part of the sources
  at hand). "Mutates self to absorb other's work; fails (result not ok) if the payloads are
  incompatible for merging, in which case self is left unmodified and other remains
  intact"; "merging increases the receiver's batch size by the donor's". The
  specification does not say which payloads are incompatible, so the relation is a
  parameter. \<open>None\<close> is a status that is not ok; \<open>Some\<close> carries the receiver after the
  merge.
\<close>

type_synonym compatibility = "Payload \<Rightarrow> Payload \<Rightarrow> bool"

definition MergePayload :: "compatibility \<Rightarrow> Payload \<Rightarrow> Payload \<Rightarrow> Payload option" where
  "MergePayload compatible self other =
     (if compatible self other
      then Some (self\<lparr>payload_batch_size := payload_batch_size self + payload_batch_size other\<rparr>)
      else None)"

subsection \<open>InstanceQueue\<close>

text \<open>
  The members of \<open>InstanceQueue\<close>. The class declaration (\<^verbatim>\<open>instance_queue.h\<close>) is not part
  of the sources at hand, so the members and their types are read off the constructor and
  the member functions: \<open>payload_queue_\<close> is a deque of shared pointers (\<open>push_back\<close>,
  \<open>front\<close>, \<open>pop_front\<close>), \<open>max_batch_size_\<close> is initialised from a \<open>size_t\<close>,
  \<open>max_queue_delay_ns_\<close> from a \<open>uint64_t\<close>, and \<open>waiting_consumer_count_\<close> is returned as
  an \<open>int\<close>. The counter is kept as a mathematical integer together with the range check
  that signed arithmetic needs. The mutex and the condition variable of the counter have
  no state of their own in a sequential model, and \<open>WaitForConsumer\<close>, which only blocks,
  is left out.
\<close>

record InstanceQueue =
  payload_queue :: "handle list"
  max_batch_size :: size_t
  max_queue_delay_ns :: uint64_t
  waiting_consumer_count :: int

text \<open>
  What the C++ leaves undefined is a value of the model: \<open>front()\<close> of an empty deque,
  locking a \<open>std::mutex\<close> that the calling thread already holds, and overflow of a signed
  integer.
\<close>

datatype fault = EmptyQueue | Relock | SignedOverflow

definition INT_MAX :: int where
  "INT_MAX = 2147483647"

definition INT_MIN :: int where
  "INT_MIN = - 2147483648"

definition InstanceQueue_init :: "size_t \<Rightarrow> uint64_t \<Rightarrow> InstanceQueue" where
  "InstanceQueue_init mbs mqd =
     \<lparr>payload_queue = [], max_batch_size = mbs, max_queue_delay_ns = mqd,
      waiting_consumer_count = 0\<rparr>"

definition Size :: "InstanceQueue \<Rightarrow> size_t" where
  "Size iq = of_nat (length (payload_queue iq))"

definition Empty :: "InstanceQueue \<Rightarrow> bool" where
  "Empty iq = (payload_queue iq = [])"

definition Enqueue :: "handle \<Rightarrow> InstanceQueue \<Rightarrow> InstanceQueue" where
  "Enqueue payload iq = iq\<lparr>payload_queue := payload_queue iq @ [payload]\<rparr>"

text \<open>
  The \<open>do ... while (continue_merge)\<close> loop of \<open>Dequeue\<close>. \<open>payload\<close> is the payload
  being dispatched (its exec mutex is held), \<open>h\<close> the store, the list the deque and \<open>ms\<close>
  the vector \<open>*merged_payloads\<close>. Every iteration reads the steady clock again: \<open>clock k\<close>
  is the value of the \<open>k\<close>-th reading. An iteration that does not set \<open>continue_merge\<close>
  ends the loop; one that does has popped the front of the deque. The candidate's exec
  mutex is locked by a \<open>std::lock_guard<std::mutex>\<close> while the one of the dispatched
  payload is held: when the candidate is the dispatched payload itself, that is a second
  lock of a mutex by the thread that owns it.
\<close>

fun merge_loop ::
  "compatibility \<Rightarrow> (nat \<Rightarrow> uint64_t) \<Rightarrow> size_t \<Rightarrow> uint64_t \<Rightarrow> handle \<Rightarrow> nat \<Rightarrow> store \<Rightarrow>
     handle list \<Rightarrow> handle list \<Rightarrow> fault + (store \<times> handle list \<times> handle list)" where
  "merge_loop compatible clock mbs mqd payload k h [] ms = Inr (h, [], ms)"
| "merge_loop compatible clock mbs mqd payload k h (front # rest) ms =
     (let now_ns = clock k;
          batch_size = BatchSize (h payload)
      in if \<not> IsSaturated (h front) \<and> now_ns - BatcherStartNs (h front) > mqd
         then if front = payload then Inl Relock
              else let h1 = h(front := SetState EXECUTING (h front));
                       front_batch_size = BatchSize (h1 front)
                   in if batch_size + front_batch_size \<le> mbs
                      then (case MergePayload compatible (h1 payload) (h1 front) of
                              Some merged \<Rightarrow>
                                merge_loop compatible clock mbs mqd payload (Suc k)
                                  (h1(payload := merged)) rest (ms @ [front])
                            | None \<Rightarrow> Inr (h1, front # rest, ms))
                      else Inr (h1, front # rest, ms)
         else Inr (h, front # rest, ms))"

text \<open>
  \<open>Dequeue\<close>. The two out-parameters are returned: the dispatched payload and the vector
  \<open>*merged_payloads\<close>, which the caller passes in and the loop appends to. The result
  also carries the store and the queue after the call.
\<close>

definition Dequeue ::
  "compatibility \<Rightarrow> (nat \<Rightarrow> uint64_t) \<Rightarrow> store \<Rightarrow> InstanceQueue \<Rightarrow> handle list \<Rightarrow>
     fault + (handle \<times> handle list \<times> store \<times> InstanceQueue)" where
  "Dequeue compatible clock h iq merged_payloads =
     (case payload_queue iq of
        [] \<Rightarrow> Inl EmptyQueue
      | payload # q \<Rightarrow>
          let h0 = h(payload := SetState EXECUTING (h payload))
          in if q \<noteq> [] \<and> max_queue_delay_ns iq > 0 \<and> max_batch_size iq > 1 \<and>
                \<not> IsSaturated (h0 payload)
             then (case merge_loop compatible clock (max_batch_size iq) (max_queue_delay_ns iq)
                          payload 0 h0 q merged_payloads of
                     Inl e \<Rightarrow> Inl e
                   | Inr (h', q', ms) \<Rightarrow> Inr (payload, ms, h', iq\<lparr>payload_queue := q'\<rparr>))
             else Inr (payload, merged_payloads, h0, iq\<lparr>payload_queue := q\<rparr>))"

definition IncrementConsumerCount :: "InstanceQueue \<Rightarrow> fault + InstanceQueue" where
  "IncrementConsumerCount iq =
     (if waiting_consumer_count iq = INT_MAX then Inl SignedOverflow
      else Inr (iq\<lparr>waiting_consumer_count := waiting_consumer_count iq + 1\<rparr>))"

definition DecrementConsumerCount :: "InstanceQueue \<Rightarrow> fault + InstanceQueue" where
  "DecrementConsumerCount iq =
     (if waiting_consumer_count iq = INT_MIN then Inl SignedOverflow
      else Inr (iq\<lparr>waiting_consumer_count := waiting_consumer_count iq - 1\<rparr>))"

definition WaitingConsumerCount :: "InstanceQueue \<Rightarrow> int" where
  "WaitingConsumerCount iq = waiting_consumer_count iq"

subsection \<open>Sequences of calls\<close>

text \<open>
  A caller is a sequence of calls on one queue. A call of \<open>Dequeue\<close> comes with the clock
  readings of its loop and is given an empty vector for the merged payloads; its two
  results are recorded.
\<close>

datatype call =
    CallEnqueue handle
  | CallDequeue "nat \<Rightarrow> uint64_t"
  | CallIncrementConsumerCount
  | CallDecrementConsumerCount

type_synonym batch = "handle \<times> handle list"

fun run ::
  "compatibility \<Rightarrow> call list \<Rightarrow> store \<Rightarrow> InstanceQueue \<Rightarrow> batch list \<Rightarrow>
     fault + (batch list \<times> store \<times> InstanceQueue)" where
  "run compatible [] h iq out = Inr (out, h, iq)"
| "run compatible (CallEnqueue p # cs) h iq out = run compatible cs h (Enqueue p iq) out"
| "run compatible (CallDequeue clock # cs) h iq out =
     (case Dequeue compatible clock h iq [] of
        Inl e \<Rightarrow> Inl e
      | Inr (p, ms, h', iq') \<Rightarrow> run compatible cs h' iq' (out @ [(p, ms)]))"
| "run compatible (CallIncrementConsumerCount # cs) h iq out =
     (case IncrementConsumerCount iq of
        Inl e \<Rightarrow> Inl e
      | Inr iq' \<Rightarrow> run compatible cs h iq' out)"
| "run compatible (CallDecrementConsumerCount # cs) h iq out =
     (case DecrementConsumerCount iq of
        Inl e \<Rightarrow> Inl e
      | Inr iq' \<Rightarrow> run compatible cs h iq' out)"

text \<open>The payloads handed to \<open>Enqueue\<close>, in call order, and those dispatched, in order.\<close>

fun enqueued :: "call list \<Rightarrow> handle list" where
  "enqueued [] = []"
| "enqueued (CallEnqueue p # cs) = p # enqueued cs"
| "enqueued (_ # cs) = enqueued cs"

fun dispatched :: "batch list \<Rightarrow> handle list" where
  "dispatched [] = []"
| "dispatched ((p, ms) # bs) = p # ms @ dispatched bs"

text \<open>The calls of the two counter operations in a sequence of calls.\<close>

fun increments :: "call list \<Rightarrow> nat" where
  "increments [] = 0"
| "increments (CallIncrementConsumerCount # cs) = Suc (increments cs)"
| "increments (_ # cs) = increments cs"

fun decrements :: "call list \<Rightarrow> nat" where
  "decrements [] = 0"
| "decrements (CallDecrementConsumerCount # cs) = Suc (decrements cs)"
| "decrements (_ # cs) = decrements cs"

text \<open>The store after the payload \<open>p\<close> has been marked as executing.\<close>

definition executing :: "handle \<Rightarrow> store \<Rightarrow> store" where
  "executing p h = h(p := SetState EXECUTING (h p))"

subsection \<open>Scenarios\<close>

text \<open>
  Concrete payloads, stores and queues on which the theorems below are exercised:
  a queued, unsaturated payload of batch size \<open>n\<close> that entered the batcher at time \<open>t\<close>,
  and the two extreme compatibility relations.
\<close>

definition fresh :: "size_t \<Rightarrow> uint64_t \<Rightarrow> Payload" where
  "fresh n t = \<lparr>payload_state = QUEUED, payload_batch_size = n, payload_saturated = False,
                payload_batcher_start_ns = t\<rparr>"

definition always_compatible :: compatibility where
  "always_compatible self other = True"

definition never_compatible :: compatibility where
  "never_compatible self other = False"

text \<open>Payload 0 arrived at time 0 and payload 1 at time 50; both have batch size 1.\<close>

definition two_payloads :: store where
  "two_payloads = (\<lambda>_. fresh 1 0)(Suc 0 := fresh 1 50)"

text \<open>A queue with batch limit 10 and delay limit 100 that holds payloads 0 and 1.\<close>

definition two_queued :: InstanceQueue where
  "two_queued = Enqueue (Suc 0) (Enqueue 0 (InstanceQueue_init 10 100))"

text \<open>Payload 0 has batch size 6, payload 1 batch size 5 and every other payload 4.\<close>

definition sized_payloads :: store where
  "sized_payloads = (\<lambda>_. fresh 4 0)(0 := fresh 6 0, Suc 0 := fresh 5 0)"

text \<open>A queue with limits 10 and 100 that holds payloads 0, 2 and 1, in this order.\<close>

definition sized_queued :: InstanceQueue where
  "sized_queued = Enqueue (Suc 0) (Enqueue 2 (Enqueue 0 (InstanceQueue_init 10 100)))"

text \<open>Payload 0 is saturated; in the second store payload 1 is.\<close>

definition saturated_head :: store where
  "saturated_head = (\<lambda>_. fresh 1 0)(0 := (fresh 1 0)\<lparr>payload_saturated := True\<rparr>)"

definition saturated_front :: store where
  "saturated_front = (\<lambda>_. fresh 1 0)(Suc 0 := (fresh 1 0)\<lparr>payload_saturated := True\<rparr>)"

text \<open>Four payloads of batch size 2, all arrived at time 0, in a queue with limits 10 and 100.\<close>

definition four_payloads :: store where
  "four_payloads = (\<lambda>_. fresh 2 0)"

definition four_queued :: InstanceQueue where
  "four_queued = Enqueue 3 (Enqueue 2 (Enqueue (Suc 0) (Enqueue 0 (InstanceQueue_init 10 100))))"

text \<open>A clock that shows the time \<open>t\<close> at every reading.\<close>

definition steady :: "uint64_t \<Rightarrow> nat \<Rightarrow> uint64_t" where
  "steady t k = t"

text \<open>
  Payloads stamped later than the clock will show: payload 1 with the largest timestamp
  there is, payload 2 with the time 10.
\<close>

definition future_payloads :: store where
  "future_payloads =
     (\<lambda>_. fresh 1 0)(Suc 0 := fresh 1 18446744073709551615, 2 := fresh 1 10)"

text \<open>A queue with limits 10 and 100 on which payload 0 has been enqueued twice.\<close>

definition twice_queued :: InstanceQueue where
  "twice_queued = Enqueue 0 (Enqueue 0 (InstanceQueue_init 10 100))"

text \<open>
  The store after the payload \<open>p\<close> has absorbed the payloads \<open>cs\<close>: the batch size of \<open>p\<close>
  has grown by theirs, each of them is marked as executing, and nothing else has changed.
\<close>

definition absorbed :: "handle \<Rightarrow> handle list \<Rightarrow> store \<Rightarrow> store" where
  "absorbed p cs h =
     (\<lambda>x. if x = p
          then (h p)\<lparr>payload_batch_size := BatchSize (h p) + (\<Sum>c\<leftarrow>cs. BatchSize (h c))\<rparr>
          else if x \<in> set cs then SetState EXECUTING (h x) else h x)"

text \<open>A compatibility relation that looks at the receiver: it accepts below a batch size.\<close>

definition receiver_below :: "size_t \<Rightarrow> compatibility" where
  "receiver_below n self other = (payload_batch_size self < n)"

section \<open>Properties\<close>

subsection \<open>Auxiliary facts\<close>

lemma SetState_simps [simp]:
  "IsSaturated (SetState s p) = IsSaturated p"
  "BatcherStartNs (SetState s p) = BatcherStartNs p"
  "BatchSize (SetState s p) = BatchSize p"
  "SetState s (SetState s' p) = SetState s p"
  "payload_state (SetState s p) = s"
  by (simp_all add: IsSaturated_def BatcherStartNs_def BatchSize_def SetState_def)

lemma word_sum_le_iff:
  fixes a b m :: "'a::len word"
  assumes "unat a + unat b < 2 ^ LENGTH('a)"
  shows "a + b \<le> m \<longleftrightarrow> unat a + unat b \<le> unat m"
proof -
  from assms have "unat (a + b) = unat a + unat b"
    by (simp add: unat_add_lem)
  then show ?thesis by (simp add: word_le_nat_alt)
qed

lemma size_t_bound: "unat (m :: size_t) < 2 ^ 64"
  using unsigned_less [of m, where ?'a = nat] by simp

text \<open>One iteration of the loop, in the three ways it can go once the lock is taken.\<close>

lemma merge_loop_unfit:
  assumes "front \<noteq> payload" and "\<not> BatchSize (h payload) + BatchSize (h front) \<le> mbs"
  shows "merge_loop compatible clock mbs mqd payload k h (front # rest) ms =
           Inr (if \<not> IsSaturated (h front) \<and> mqd < clock k - BatcherStartNs (h front)
                then h(front := SetState EXECUTING (h front)) else h, front # rest, ms)"
  using assms by (simp add: Let_def)

lemma merge_loop_failed:
  assumes "front \<noteq> payload" and "\<not> IsSaturated (h front)"
    and "mqd < clock k - BatcherStartNs (h front)"
    and "BatchSize (h payload) + BatchSize (h front) \<le> mbs"
    and "MergePayload compatible (h payload) (SetState EXECUTING (h front)) = None"
  shows "merge_loop compatible clock mbs mqd payload k h (front # rest) ms =
           Inr (h(front := SetState EXECUTING (h front)), front # rest, ms)"
  using assms by (simp add: Let_def)

lemma merge_loop_merged:
  assumes "front \<noteq> payload" and "\<not> IsSaturated (h front)"
    and "mqd < clock k - BatcherStartNs (h front)"
    and "compatible (h payload) (SetState EXECUTING (h front))"
    and "unat (BatchSize (h payload)) + unat (BatchSize (h front)) \<le> unat mbs"
  shows "merge_loop compatible clock mbs mqd payload k h (front # rest) ms =
           merge_loop compatible clock mbs mqd payload (Suc k)
             (h(front := SetState EXECUTING (h front),
                payload := (h payload)\<lparr>payload_batch_size :=
                  BatchSize (h payload) + BatchSize (h front)\<rparr>))
             rest (ms @ [front])"
proof -
  from assms(5) size_t_bound [of mbs]
  have "unat (BatchSize (h payload)) + unat (BatchSize (h front)) < 2 ^ 64" by linarith
  with assms(5) have "BatchSize (h payload) + BatchSize (h front) \<le> mbs"
    using word_sum_le_iff [of "BatchSize (h payload)" "BatchSize (h front)" mbs] by simp
  with assms(1-4) show ?thesis
    by (simp add: Let_def MergePayload_def BatchSize_def SetState_def)
qed

text \<open>
  What the loop returns: the payloads it appended to the vector are the ones it popped,
  in order, and each of them was unsaturated, older than the delay at the reading of its
  iteration, and different from the payload being dispatched. Neither \<open>SetState\<close> nor
  \<open>MergePayload\<close> changes the saturated flag or the timestamp of a payload, so these
  facts are about the store at the start of the loop.
\<close>

lemma merge_loop_merged_eligible:
  "merge_loop compatible clock mbs mqd payload k h q ms = Inr (h', q', ms') \<Longrightarrow>
     \<exists>taken. ms' = ms @ taken \<and> q = taken @ q' \<and>
       (\<forall>i<length taken. \<not> IsSaturated (h (taken ! i)) \<and>
           mqd < clock (k + i) - BatcherStartNs (h (taken ! i)) \<and> taken ! i \<noteq> payload)"
proof (induction q arbitrary: k h ms)
  case Nil
  then show ?case by simp
next
  case (Cons front rest)
  show ?case
  proof (cases "merge_loop compatible clock mbs mqd payload k h (front # rest) ms =
                  Inr (h', front # rest, ms)")
    case True
    with Cons.prems show ?thesis by simp
  next
    case False
    let ?h2 = "\<lambda>merged. (h(front := SetState EXECUTING (h front)))(payload := merged)"
    from False Cons.prems obtain merged where
      rec: "merge_loop compatible clock mbs mqd payload (Suc k) (?h2 merged) rest (ms @ [front])
            = Inr (h', q', ms')"
      and m: "MergePayload compatible ((h(front := SetState EXECUTING (h front))) payload)
                ((h(front := SetState EXECUTING (h front))) front) = Some merged"
      and ne: "front \<noteq> payload"
      and el: "\<not> IsSaturated (h front)" "mqd < clock k - BatcherStartNs (h front)"
      by (auto simp: Let_def split: if_splits option.splits)
    from m ne have fr: "IsSaturated (?h2 merged x) = IsSaturated (h x)"
        "BatcherStartNs (?h2 merged x) = BatcherStartNs (h x)" for x
      by (auto simp: MergePayload_def IsSaturated_def BatcherStartNs_def SetState_def
          split: if_splits)
    from Cons.IH [OF rec] obtain taken where
      t: "ms' = (ms @ [front]) @ taken" "rest = taken @ q'"
         "\<forall>i<length taken. \<not> IsSaturated (h (taken ! i)) \<and>
             mqd < clock (Suc k + i) - BatcherStartNs (h (taken ! i)) \<and> taken ! i \<noteq> payload"
      unfolding fr by blast
    have "\<forall>i<length (front # taken). \<not> IsSaturated (h ((front # taken) ! i)) \<and>
             mqd < clock (k + i) - BatcherStartNs (h ((front # taken) ! i)) \<and>
             (front # taken) ! i \<noteq> payload"
    proof (intro allI impI)
      fix i assume i: "i < length (front # taken)"
      show "\<not> IsSaturated (h ((front # taken) ! i)) \<and>
             mqd < clock (k + i) - BatcherStartNs (h ((front # taken) ! i)) \<and>
             (front # taken) ! i \<noteq> payload"
      proof (cases i)
        case 0
        with el ne show ?thesis by simp
      next
        case (Suc j)
        with i t(3) show ?thesis by simp
      qed
    qed
    moreover from t have "ms' = ms @ (front # taken)" "front # rest = (front # taken) @ q'"
      by simp_all
    ultimately show ?thesis by blast
  qed
qed

lemma merge_loop_takes:
  assumes "merge_loop compatible clock mbs mqd payload k h q ms = Inr (h', q', ms')"
  shows "\<exists>taken. ms' = ms @ taken \<and> q = taken @ q'"
  using merge_loop_merged_eligible [OF assms] by blast

text \<open>The loop cannot fault when the dispatched payload is not queued a second time.\<close>

lemma merge_loop_returns:
  "payload \<notin> set q \<Longrightarrow> \<exists>r. merge_loop compatible clock mbs mqd payload k h q ms = Inr r"
proof (induction q arbitrary: k h ms)
  case Nil
  then show ?case by simp
next
  case (Cons front rest)
  then have "payload \<notin> set rest" "front \<noteq> payload" by auto
  with Cons.IH show ?case
    by (simp add: Let_def split: option.splits)
qed

text \<open>
  A run of candidates that are all eligible is absorbed one after the other. The receiver
  of the \<open>i\<close>-th merge is the dispatched payload as it is after the first \<open>i\<close> merges.
\<close>

lemma absorbed_Nil [simp]: "absorbed p [] h = h"
  by (rule ext) (simp add: absorbed_def BatchSize_def)

lemma absorbed_Cons:
  assumes "c \<noteq> p" and "p \<notin> set cs"
  shows "absorbed p cs
           (h(c := SetState EXECUTING (h c),
              p := (h p)\<lparr>payload_batch_size := BatchSize (h p) + BatchSize (h c)\<rparr>)) =
         absorbed p (c # cs) h"
proof (rule ext)
  fix x
  let ?h2 = "h(c := SetState EXECUTING (h c),
              p := (h p)\<lparr>payload_batch_size := BatchSize (h p) + BatchSize (h c)\<rparr>)"
  from assms have "(\<Sum>y\<leftarrow>cs. BatchSize (?h2 y)) = (\<Sum>y\<leftarrow>cs. BatchSize (h y))"
    by (intro arg_cong [where f = sum_list] map_cong refl) auto
  with assms show "absorbed p cs ?h2 x = absorbed p (c # cs) h x"
    by (auto simp: absorbed_def BatchSize_def SetState_def add.assoc)
qed

lemma merge_loop_chain:
  assumes "payload \<notin> set cs"
    and "\<forall>i<length cs. \<not> IsSaturated (h (cs ! i)) \<and>
            mqd < clock (k + i) - BatcherStartNs (h (cs ! i))"
    and "unat (BatchSize (h payload)) + (\<Sum>c\<leftarrow>cs. unat (BatchSize (h c))) \<le> unat mbs"
    and "\<forall>i<length cs.
           MergePayload compatible (absorbed payload (take i cs) h payload)
             (SetState EXECUTING (h (cs ! i))) \<noteq> None"
  shows "merge_loop compatible clock mbs mqd payload k h (cs @ rest) ms =
         merge_loop compatible clock mbs mqd payload (k + length cs)
           (absorbed payload cs h) rest (ms @ cs)"
  using assms
proof (induction cs arbitrary: k h ms)
  case Nil
  then show ?case by simp
next
  case (Cons c cs)
  let ?h2 = "h(c := SetState EXECUTING (h c),
               payload := (h payload)\<lparr>payload_batch_size :=
                 BatchSize (h payload) + BatchSize (h c)\<rparr>)"
  from Cons.prems(1) have ne: "c \<noteq> payload" and notin: "payload \<notin> set cs" by auto
  from Cons.prems(2) have el: "\<not> IsSaturated (h c)" "mqd < clock k - BatcherStartNs (h c)"
    by force+
  from Cons.prems(3) have le: "unat (BatchSize (h payload)) + unat (BatchSize (h c)) \<le> unat mbs"
    by simp
  from Cons.prems(4) have "MergePayload compatible (absorbed payload (take 0 (c # cs)) h payload)
             (SetState EXECUTING (h ((c # cs) ! 0))) \<noteq> None"
    by blast
  then have co: "compatible (h payload) (SetState EXECUTING (h c))"
    by (simp add: MergePayload_def split: if_splits)
  have step: "merge_loop compatible clock mbs mqd payload k h ((c # cs) @ rest) ms =
        merge_loop compatible clock mbs mqd payload (Suc k) ?h2 (cs @ rest) (ms @ [c])"
    unfolding append_Cons
    using ne el co le by (rule merge_loop_merged [where h = h and front = c])
  from le size_t_bound [of mbs] have bs: "unat (BatchSize (?h2 payload)) =
      unat (BatchSize (h payload)) + unat (BatchSize (h c))"
    by (simp add: BatchSize_def unat_add_lem [THEN iffD1])
  have other: "IsSaturated (?h2 x) = IsSaturated (h x)"
      "BatcherStartNs (?h2 x) = BatcherStartNs (h x)"
      "x \<noteq> payload \<Longrightarrow> BatchSize (?h2 x) = BatchSize (h x)"
      "x \<noteq> payload \<Longrightarrow> SetState EXECUTING (?h2 x) = SetState EXECUTING (h x)" for x
    by (simp_all add: IsSaturated_def BatcherStartNs_def BatchSize_def SetState_def)
  have p2: "\<forall>i<length cs. \<not> IsSaturated (?h2 (cs ! i)) \<and>
            mqd < clock (Suc k + i) - BatcherStartNs (?h2 (cs ! i))"
    unfolding other using Cons.prems(2) by force
  have "(\<Sum>x\<leftarrow>cs. unat (BatchSize (?h2 x))) = (\<Sum>x\<leftarrow>cs. unat (BatchSize (h x)))"
    using notin by (intro arg_cong [where f = sum_list] map_cong refl) auto
  with bs Cons.prems(3) have p3:
    "unat (BatchSize (?h2 payload)) + (\<Sum>x\<leftarrow>cs. unat (BatchSize (?h2 x))) \<le> unat mbs"
    by simp
  have p4: "\<forall>i<length cs.
           MergePayload compatible (absorbed payload (take i cs) ?h2 payload)
             (SetState EXECUTING (?h2 (cs ! i))) \<noteq> None"
  proof (intro allI impI)
    fix i assume i: "i < length cs"
    from notin have n: "payload \<notin> set (take i cs)" by (auto dest: in_set_takeD)
    from notin i have x: "cs ! i \<noteq> payload" by auto
    from Cons.prems(4) i have
      "MergePayload compatible (absorbed payload (take (Suc i) (c # cs)) h payload)
             (SetState EXECUTING (h ((c # cs) ! Suc i))) \<noteq> None"
      by (metis length_Cons Suc_less_eq)
    then show "MergePayload compatible (absorbed payload (take i cs) ?h2 payload)
             (SetState EXECUTING (?h2 (cs ! i))) \<noteq> None"
      unfolding other(4) [OF x] absorbed_Cons [OF ne n] by simp
  qed
  have "merge_loop compatible clock mbs mqd payload (Suc k) ?h2 (cs @ rest) (ms @ [c]) =
        merge_loop compatible clock mbs mqd payload (Suc k + length cs)
          (absorbed payload cs ?h2) rest ((ms @ [c]) @ cs)"
    by (rule Cons.IH [OF notin p2 p3 p4])
  then have "merge_loop compatible clock mbs mqd payload (Suc k) ?h2 (cs @ rest) (ms @ [c]) =
        merge_loop compatible clock mbs mqd payload (k + length (c # cs))
          (absorbed payload (c # cs) h) rest (ms @ c # cs)"
    unfolding absorbed_Cons [OF ne notin] by simp
  with step show ?case by (rule trans)
qed

text \<open>
  What the loop has done to the store when it returns: the dispatched payload has kept
  its state and its batch size has grown by those of the payloads appended to the vector,
  and each of these is marked as executing.
\<close>

lemma merge_loop_keeps_executing:
  "merge_loop compatible clock mbs mqd payload k h q ms = Inr (h', q', ms') \<Longrightarrow>
     x \<noteq> payload \<Longrightarrow> payload_state (h x) = EXECUTING \<Longrightarrow> payload_state (h' x) = EXECUTING"
proof (induction q arbitrary: k h ms)
  case Nil
  then show ?case by simp
next
  case (Cons front rest)
  let ?h1 = "h(front := SetState EXECUTING (h front))"
  from Cons.prems(1) consider
      (stop) "h' = h \<or> h' = ?h1"
    | (go) merged where
        "merge_loop compatible clock mbs mqd payload (Suc k) (?h1(payload := merged)) rest
           (ms @ [front]) = Inr (h', q', ms')"
    by (auto simp: Let_def split: if_splits option.splits)
  then show ?case
  proof cases
    case stop
    with Cons.prems(3) show ?thesis by auto
  next
    case go
    from Cons.prems(2,3) have "payload_state ((?h1(payload := merged)) x) = EXECUTING"
      by simp
    with Cons.IH [OF go Cons.prems(2)] show ?thesis .
  qed
qed

lemma merge_loop_absorbs:
  "merge_loop compatible clock mbs mqd payload k h q ms = Inr (h', q', ms') \<Longrightarrow>
     \<exists>taken. ms' = ms @ taken \<and> q = taken @ q' \<and>
       payload_state (h' payload) = payload_state (h payload) \<and>
       BatchSize (h' payload) = BatchSize (h payload) + (\<Sum>x\<leftarrow>taken. BatchSize (h x)) \<and>
       (\<forall>x\<in>set taken. payload_state (h' x) = EXECUTING)"
proof (induction q arbitrary: k h ms)
  case Nil
  then show ?case by simp
next
  case (Cons front rest)
  let ?h1 = "h(front := SetState EXECUTING (h front))"
  let ?merged = "(h payload)\<lparr>payload_batch_size := BatchSize (h payload) + BatchSize (h front)\<rparr>"
  let ?h2 = "?h1(payload := ?merged)"
  from Cons.prems consider
      (same) "h' = h" "q' = front # rest" "ms' = ms"
    | (marked) "h' = ?h1" "q' = front # rest" "ms' = ms" "front \<noteq> payload"
    | (go) "front \<noteq> payload"
        "merge_loop compatible clock mbs mqd payload (Suc k) ?h2 rest (ms @ [front]) =
           Inr (h', q', ms')"
    by (auto simp: Let_def MergePayload_def BatchSize_def SetState_def
        split: if_splits option.splits)
  then show ?case
  proof cases
    case same
    then show ?thesis by simp
  next
    case marked
    then show ?thesis by simp
  next
    case go
    from merge_loop_merged_eligible [OF go(2)] obtain taken where
      t: "ms' = (ms @ [front]) @ taken" "rest = taken @ q'"
         "\<forall>i<length taken. taken ! i \<noteq> payload"
      by blast
    then have notin: "payload \<notin> set taken" by (auto simp: in_set_conv_nth)
    from Cons.IH [OF go(2)] t(1) have
      ih: "payload_state (h' payload) = payload_state (?h2 payload)"
          "BatchSize (h' payload) = BatchSize (?h2 payload) + (\<Sum>x\<leftarrow>taken. BatchSize (?h2 x))"
          "\<forall>x\<in>set taken. payload_state (h' x) = EXECUTING"
      by auto
    from notin have "(\<Sum>x\<leftarrow>taken. BatchSize (?h2 x)) = (\<Sum>x\<leftarrow>taken. BatchSize (h x))"
      by (intro arg_cong [where f = sum_list] map_cong refl) auto
    with ih(2) have b: "BatchSize (h' payload) =
        BatchSize (h payload) + (\<Sum>x\<leftarrow>front # taken. BatchSize (h x))"
      by (simp add: BatchSize_def add.assoc)
    from go(1) have "payload_state (?h2 front) = EXECUTING" by simp
    with merge_loop_keeps_executing [OF go(2) go(1)]
    have f: "payload_state (h' front) = EXECUTING" .
    from ih(1) have s: "payload_state (h' payload) = payload_state (h payload)" by simp
    from t have "ms' = ms @ (front # taken)" "front # rest = (front # taken) @ q'" by simp_all
    with s b f ih(3) show ?thesis by (intro exI [of _ "front # taken"]) simp
  qed
qed

lemma Dequeue_absorbs:
  assumes "Dequeue compatible clock h iq [] = Inr (p, ms, h', iq')"
  shows "payload_state (h' p) = EXECUTING \<and>
         BatchSize (h' p) = BatchSize (h p) + (\<Sum>x\<leftarrow>ms. BatchSize (h x)) \<and>
         (\<forall>x\<in>set ms. payload_state (h' x) = EXECUTING)"
proof (cases "payload_queue iq")
  case Nil
  with assms show ?thesis by (simp add: Dequeue_def)
next
  case (Cons payload q)
  let ?h0 = "h(payload := SetState EXECUTING (h payload))"
  have fr: "BatchSize (?h0 x) = BatchSize (h x)" for x
    by simp
  show ?thesis
  proof (cases "q \<noteq> [] \<and> max_queue_delay_ns iq > 0 \<and> max_batch_size iq > 1 \<and>
                \<not> IsSaturated (?h0 payload)")
    case False
    with assms Cons show ?thesis
      by (auto simp: Dequeue_def Let_def split: if_splits)
  next
    case True
    with assms Cons obtain q' where
      ml: "merge_loop compatible clock (max_batch_size iq) (max_queue_delay_ns iq) payload 0 ?h0 q []
           = Inr (h', q', ms)" and p: "p = payload"
      by (auto simp: Dequeue_def Let_def split: if_splits sum.splits)
    from merge_loop_absorbs [OF ml] p show ?thesis
      unfolding fr by auto
  qed
qed

text \<open>
  Every payload the loop appended fitted when it was merged: the batch size of the
  dispatched payload, grown by the payloads merged before it, plus its own batch size was
  at most the limit, in the arithmetic of \<open>size_t\<close>.
\<close>

lemma merge_loop_merged_fit:
  "merge_loop compatible clock mbs mqd payload k h q ms = Inr (h', q', ms') \<Longrightarrow>
     \<exists>taken. ms' = ms @ taken \<and>
       (\<forall>i<length taken.
           BatchSize (h payload) + (\<Sum>x\<leftarrow>take i taken. BatchSize (h x)) +
             BatchSize (h (taken ! i)) \<le> mbs)"
proof (induction q arbitrary: k h ms)
  case Nil
  then show ?case by simp
next
  case (Cons front rest)
  show ?case
  proof (cases "merge_loop compatible clock mbs mqd payload k h (front # rest) ms =
                  Inr (h', front # rest, ms)")
    case True
    with Cons.prems show ?thesis by simp
  next
    case False
    let ?h1 = "h(front := SetState EXECUTING (h front))"
    let ?merged = "(h payload)\<lparr>payload_batch_size := BatchSize (h payload) + BatchSize (h front)\<rparr>"
    let ?h2 = "?h1(payload := ?merged)"
    from False Cons.prems have
      rec: "merge_loop compatible clock mbs mqd payload (Suc k) ?h2 rest (ms @ [front])
            = Inr (h', q', ms')"
      and ne: "front \<noteq> payload"
      and fit: "BatchSize (h payload) + BatchSize (h front) \<le> mbs"
      by (auto simp: Let_def MergePayload_def BatchSize_def SetState_def
          split: if_splits option.splits)
    from merge_loop_merged_eligible [OF rec] obtain taken where
      t: "ms' = (ms @ [front]) @ taken" "\<forall>i<length taken. taken ! i \<noteq> payload"
      by blast
    then have notin: "payload \<notin> set taken" by (auto simp: in_set_conv_nth)
    from Cons.IH [OF rec] t(1) have
      ih: "\<forall>i<length taken.
           BatchSize (?h2 payload) + (\<Sum>x\<leftarrow>take i taken. BatchSize (?h2 x)) +
             BatchSize (?h2 (taken ! i)) \<le> mbs"
      by simp
    have other: "x \<noteq> payload \<Longrightarrow> BatchSize (?h2 x) = BatchSize (h x)" for x
      by simp
    have head: "BatchSize (?h2 payload) = BatchSize (h payload) + BatchSize (h front)"
      by (simp add: BatchSize_def)
    have "\<forall>i<length (front # taken).
           BatchSize (h payload) + (\<Sum>x\<leftarrow>take i (front # taken). BatchSize (h x)) +
             BatchSize (h ((front # taken) ! i)) \<le> mbs"
    proof (intro allI impI)
      fix i assume i: "i < length (front # taken)"
      show "BatchSize (h payload) + (\<Sum>x\<leftarrow>take i (front # taken). BatchSize (h x)) +
             BatchSize (h ((front # taken) ! i)) \<le> mbs"
      proof (cases i)
        case 0
        with fit show ?thesis by simp
      next
        case (Suc j)
        with i have j: "j < length taken" by simp
        from notin have "\<forall>x\<in>set (take j taken). x \<noteq> payload"
          by (auto dest: in_set_takeD)
        then have "(\<Sum>x\<leftarrow>take j taken. BatchSize (?h2 x)) =
                   (\<Sum>x\<leftarrow>take j taken. BatchSize (h x))"
          by (intro arg_cong [where f = sum_list] map_cong refl) (simp add: other)
        moreover from notin j have "BatchSize (?h2 (taken ! j)) = BatchSize (h (taken ! j))"
          by (intro other) auto
        ultimately have "BatchSize (h payload) + BatchSize (h front) +
            (\<Sum>x\<leftarrow>take j taken. BatchSize (h x)) + BatchSize (h (taken ! j)) \<le> mbs"
          using ih j head by (metis (no_types, lifting))
        with Suc show ?thesis by (simp add: add.assoc)
      qed
    qed
    moreover from t have "ms' = ms @ (front # taken)" by simp
    ultimately show ?thesis by blast
  qed
qed

text \<open>The same facts for a whole call of \<open>Dequeue\<close> that was given an empty vector.\<close>

lemma Dequeue_merged_eligible:
  assumes "Dequeue compatible clock h iq [] = Inr (p, ms, h', iq')"
  shows "payload_queue iq = p # ms @ payload_queue iq' \<and>
         (\<forall>i<length ms. \<not> IsSaturated (h (ms ! i)) \<and>
            max_queue_delay_ns iq < clock i - BatcherStartNs (h (ms ! i)) \<and> ms ! i \<noteq> p)"
proof (cases "payload_queue iq")
  case Nil
  with assms show ?thesis by (simp add: Dequeue_def)
next
  case (Cons payload q)
  let ?h0 = "h(payload := SetState EXECUTING (h payload))"
  have fr: "IsSaturated (?h0 x) = IsSaturated (h x)"
           "BatcherStartNs (?h0 x) = BatcherStartNs (h x)" for x
    by simp_all
  show ?thesis
  proof (cases "q \<noteq> [] \<and> max_queue_delay_ns iq > 0 \<and> max_batch_size iq > 1 \<and>
                \<not> IsSaturated (?h0 payload)")
    case False
    with assms Cons show ?thesis
      by (auto simp: Dequeue_def Let_def split: if_splits)
  next
    case True
    with assms Cons obtain q' where
      ml: "merge_loop compatible clock (max_batch_size iq) (max_queue_delay_ns iq) payload 0 ?h0 q []
           = Inr (h', q', ms)" and p: "p = payload" and iq': "iq' = iq\<lparr>payload_queue := q'\<rparr>"
      by (auto simp: Dequeue_def Let_def split: if_splits sum.splits)
    from merge_loop_merged_eligible [OF ml] p iq' Cons show ?thesis
      unfolding fr by auto
  qed
qed

lemma Dequeue_merged_fit:
  assumes "Dequeue compatible clock h iq [] = Inr (p, ms, h', iq')"
  shows "\<forall>i<length ms.
           BatchSize (h p) + (\<Sum>x\<leftarrow>take i ms. BatchSize (h x)) + BatchSize (h (ms ! i))
             \<le> max_batch_size iq"
proof (cases "payload_queue iq")
  case Nil
  with assms show ?thesis by (simp add: Dequeue_def)
next
  case (Cons payload q)
  let ?h0 = "h(payload := SetState EXECUTING (h payload))"
  have fr: "BatchSize (?h0 x) = BatchSize (h x)" for x
    by simp
  show ?thesis
  proof (cases "q \<noteq> [] \<and> max_queue_delay_ns iq > 0 \<and> max_batch_size iq > 1 \<and>
                \<not> IsSaturated (?h0 payload)")
    case False
    with assms Cons show ?thesis
      by (auto simp: Dequeue_def Let_def split: if_splits)
  next
    case True
    with assms Cons obtain q' where
      ml: "merge_loop compatible clock (max_batch_size iq) (max_queue_delay_ns iq) payload 0 ?h0 q []
           = Inr (h', q', ms)" and p: "p = payload"
      by (auto simp: Dequeue_def Let_def split: if_splits sum.splits)
    from merge_loop_merged_fit [OF ml] p show ?thesis
      unfolding fr by auto
  qed
qed

lemma Dequeue_conserves:
  assumes "Dequeue compatible clock h iq [] = Inr (p, ms, h', iq')"
  shows "payload_queue iq = p # ms @ payload_queue iq'"
    and "waiting_consumer_count iq' = waiting_consumer_count iq"
    and "max_batch_size iq' = max_batch_size iq"
    and "max_queue_delay_ns iq' = max_queue_delay_ns iq"
proof -
  from Dequeue_merged_eligible [OF assms] show "payload_queue iq = p # ms @ payload_queue iq'"
    by simp
  from assms show "waiting_consumer_count iq' = waiting_consumer_count iq"
    "max_batch_size iq' = max_batch_size iq" "max_queue_delay_ns iq' = max_queue_delay_ns iq"
    by (auto simp: Dequeue_def Let_def split: list.splits if_splits sum.splits)
qed

lemma Dequeue_disabled:
  assumes "max_queue_delay_ns iq = 0 \<or> max_batch_size iq \<le> 1" and "payload_queue iq = p # q"
  shows "Dequeue compatible clock h iq ms =
           Inr (p, ms, executing p h, iq\<lparr>payload_queue := q\<rparr>)"
  using assms by (auto simp: Dequeue_def Let_def executing_def)

text \<open>Sequences of calls: what has been dispatched or is still queued, and the counter.\<close>

lemma dispatched_append [simp]: "dispatched (out @ out') = dispatched out @ dispatched out'"
  by (induction out rule: dispatched.induct) simp_all

lemma run_conserves:
  "run compatible calls h iq out = Inr (out', h', iq') \<Longrightarrow>
     dispatched out' @ payload_queue iq' = dispatched out @ payload_queue iq @ enqueued calls"
proof (induction compatible calls h iq out rule: run.induct)
  case (1 compatible h iq out)
  then show ?case by simp
next
  case (2 compatible p cs h iq out)
  then show ?case by (simp add: Enqueue_def)
next
  case (3 compatible clock cs h iq out)
  from "3.prems" obtain p ms h1 iq1 where
    d: "Dequeue compatible clock h iq [] = Inr (p, ms, h1, iq1)"
    and r: "run compatible cs h1 iq1 (out @ [(p, ms)]) = Inr (out', h', iq')"
    by (auto split: sum.splits)
  from "3.IH" [OF d refl refl refl r] Dequeue_conserves(1) [OF d] show ?case by simp
next
  case (4 compatible cs h iq out)
  then show ?case
    by (auto simp: IncrementConsumerCount_def split: sum.splits if_splits)
next
  case (5 compatible cs h iq out)
  then show ?case
    by (auto simp: DecrementConsumerCount_def split: sum.splits if_splits)
qed

lemma run_counter:
  "run compatible calls h iq out = Inr (out', h', iq') \<Longrightarrow>
     WaitingConsumerCount iq' =
       WaitingConsumerCount iq + int (increments calls) - int (decrements calls)"
proof (induction compatible calls h iq out rule: run.induct)
  case (1 compatible h iq out)
  then show ?case by simp
next
  case (2 compatible p cs h iq out)
  then show ?case by (simp add: Enqueue_def WaitingConsumerCount_def)
next
  case (3 compatible clock cs h iq out)
  from "3.prems" obtain p ms h1 iq1 where
    d: "Dequeue compatible clock h iq [] = Inr (p, ms, h1, iq1)"
    and r: "run compatible cs h1 iq1 (out @ [(p, ms)]) = Inr (out', h', iq')"
    by (auto split: sum.splits)
  from "3.IH" [OF d refl refl refl r] Dequeue_conserves(2) [OF d] show ?case
    by (simp add: WaitingConsumerCount_def)
next
  case (4 compatible cs h iq out)
  then show ?case
    by (auto simp: IncrementConsumerCount_def WaitingConsumerCount_def
        split: sum.splits if_splits)
next
  case (5 compatible cs h iq out)
  then show ?case
    by (auto simp: DecrementConsumerCount_def WaitingConsumerCount_def
        split: sum.splits if_splits)
qed

lemma run_enqueues:
  "run compatible (map CallEnqueue ps @ cs) h iq out =
     run compatible cs h (iq\<lparr>payload_queue := payload_queue iq @ ps\<rparr>) out"
  by (induction ps arbitrary: iq) (simp_all add: Enqueue_def)

lemma run_dequeues_disabled:
  assumes "max_queue_delay_ns iq = 0 \<or> max_batch_size iq \<le> 1"
    and "payload_queue iq = ps @ rest" and "length clocks = length ps"
  shows "run compatible (map CallDequeue clocks) h iq out =
           Inr (out @ map (\<lambda>p. (p, [])) ps, fold executing ps h, iq\<lparr>payload_queue := rest\<rparr>)"
  using assms
proof (induction ps arbitrary: clocks h iq out)
  case Nil
  then show ?case by simp
next
  case (Cons p ps)
  from Cons.prems(3) obtain c cs where c: "clocks = c # cs" "length cs = length ps"
    by (cases clocks) auto
  let ?iq1 = "iq\<lparr>payload_queue := ps @ rest\<rparr>"
  from Cons.prems have d: "Dequeue compatible c h iq [] = Inr (p, [], executing p h, ?iq1)"
    by (intro Dequeue_disabled) simp_all
  from Cons.prems(1) have dis: "max_queue_delay_ns ?iq1 = 0 \<or> max_batch_size ?iq1 \<le> 1" by simp
  from Cons.IH [OF dis _ c(2), of "executing p h" "out @ [(p, [])]"] c d
  show ?case by simp
qed

text \<open>The scenarios, evaluated.\<close>

lemma two_queued_simps:
  "payload_queue two_queued = [0, Suc 0]" "max_batch_size two_queued = 10"
  "max_queue_delay_ns two_queued = 100" "waiting_consumer_count two_queued = 0"
  by (simp_all add: two_queued_def Enqueue_def InstanceQueue_init_def)

lemma four_queued_simps:
  "payload_queue four_queued = [0, Suc 0, 2, 3]" "max_batch_size four_queued = 10"
  "max_queue_delay_ns four_queued = 100" "waiting_consumer_count four_queued = 0"
  by (simp_all add: four_queued_def Enqueue_def InstanceQueue_init_def)

lemma fresh_simps [simp]:
  "IsSaturated (fresh n t) = False" "BatchSize (fresh n t) = n" "BatcherStartNs (fresh n t) = t"
  by (simp_all add: fresh_def IsSaturated_def BatchSize_def BatcherStartNs_def)

subsection \<open>Exactly-once dispatch\<close>

text \<open>
  C1. For every sequence of calls of \<open>Enqueue\<close> and \<open>Dequeue\<close> on a newly constructed
  queue (calls of the counter operations may be interleaved), the payloads returned by the
  calls of \<open>Dequeue\<close>, each dispatched payload followed by the payloads merged into it,
  followed by the payloads still queued, are exactly the payloads that were enqueued, in
  the order of their enqueueing. So every enqueueing of a payload is answered exactly once:
  by one place in the returned pairs, or by one place in the queue as long as the payload
  has not been dequeued. The sequence of calls is one that the code can execute: it never
  calls \<open>Dequeue\<close> on an empty queue.
\<close>

theorem exactly_once_dispatch:
  assumes "run compatible calls h (InstanceQueue_init mbs mqd) [] = Inr (out, h', iq')"
  shows "dispatched out @ payload_queue iq' = enqueued calls \<and>
         (\<forall>x. count_list (dispatched out) x + count_list (payload_queue iq') x =
               count_list (enqueued calls) x)"
proof -
  from run_conserves [OF assms]
  have e: "dispatched out @ payload_queue iq' = enqueued calls"
    by (simp add: InstanceQueue_init_def)
  have "count_list (dispatched out @ payload_queue iq') x =
        count_list (dispatched out) x + count_list (payload_queue iq') x" for x
    by simp
  with e show ?thesis by simp
qed

theorem exactly_once_dispatch_witness:
  "run always_compatible
     [CallEnqueue 0, CallEnqueue (Suc 0), CallDequeue (\<lambda>_. 200), CallEnqueue 2]
     two_payloads (InstanceQueue_init 10 100) [] =
     Inr ([(0, [Suc 0])],
          two_payloads(0 := (SetState EXECUTING (fresh 1 0))\<lparr>payload_batch_size := 2\<rparr>,
                       Suc 0 := SetState EXECUTING (fresh 1 50)),
          (InstanceQueue_init 10 100)\<lparr>payload_queue := [2]\<rparr>) \<and>
   dispatched [(0, [Suc 0])] @ [2] = [0, Suc 0, 2] \<and>
   count_list (dispatched [(0, [Suc 0])]) (Suc 0) + count_list [2] (Suc 0) = 1"
proof -
  let ?calls = "[CallEnqueue 0, CallEnqueue (Suc 0), CallDequeue (\<lambda>_. 200), CallEnqueue 2]"
  let ?h' = "two_payloads(0 := (SetState EXECUTING (fresh 1 0))\<lparr>payload_batch_size := 2\<rparr>,
                       Suc 0 := SetState EXECUTING (fresh 1 50))"
  let ?iq' = "(InstanceQueue_init 10 100)\<lparr>payload_queue := [2]\<rparr>"
  have r: "run always_compatible ?calls two_payloads (InstanceQueue_init 10 100) [] =
           Inr ([(0, [Suc 0])], ?h', ?iq')"
    by (simp add: Dequeue_def Enqueue_def InstanceQueue_init_def two_payloads_def fresh_def
        Let_def IsSaturated_def BatcherStartNs_def BatchSize_def SetState_def MergePayload_def
        always_compatible_def fun_upd_twist)
  from exactly_once_dispatch [OF r] r show ?thesis
    by (simp add: InstanceQueue_init_def)
qed

subsection \<open>Merge eligibility by age\<close>

text \<open>
  C2. The time at which a payload entered the queue is its \<open>batcher_start_ns\<close>, the only
  arrival time the code reads. A call of \<open>Dequeue\<close> merges the \<open>i\<close>-th payload behind the
  head only if, at the clock reading of that iteration, the reading minus the payload's
  start time is strictly greater than \<open>max_queue_delay_ns\<close>. The difference is the one the
  code computes, on \<open>uint64_t\<close>; when the start time is not later than the reading, it is
  the difference of the two numbers. Conversely, in any iteration of the loop, a candidate
  whose age does not exceed the delay ends the loop: the store, the queue (with the
  candidate at its front) and the merged vector are returned as they are.
\<close>

theorem merge_only_past_delay:
  "(Dequeue compatible clock h iq [] = Inr (p, ms, h', iq') \<longrightarrow>
      (\<forall>i<length ms.
          ms ! i = payload_queue iq ! Suc i \<and>
          max_queue_delay_ns iq < clock i - BatcherStartNs (h (ms ! i)) \<and>
          (BatcherStartNs (h (ms ! i)) \<le> clock i \<longrightarrow>
             uint (max_queue_delay_ns iq) <
               uint (clock i) - uint (BatcherStartNs (h (ms ! i)))))) \<and>
   (\<not> mqd < clock k - BatcherStartNs (h front) \<longrightarrow>
      merge_loop compatible clock mbs mqd payload k h (front # rest) ms0 =
        Inr (h, front # rest, ms0))"
proof (intro conjI impI allI)
  fix i
  assume d: "Dequeue compatible clock h iq [] = Inr (p, ms, h', iq')" and i: "i < length ms"
  from Dequeue_merged_eligible [OF d] i
  have q: "payload_queue iq = p # ms @ payload_queue iq'"
    and a: "max_queue_delay_ns iq < clock i - BatcherStartNs (h (ms ! i))"
    by simp_all
  from q i show "ms ! i = payload_queue iq ! Suc i" by (simp add: nth_append)
  from a show "max_queue_delay_ns iq < clock i - BatcherStartNs (h (ms ! i))" .
  assume "BatcherStartNs (h (ms ! i)) \<le> clock i"
  then have "uint (clock i - BatcherStartNs (h (ms ! i))) =
             uint (clock i) - uint (BatcherStartNs (h (ms ! i)))"
    by (rule uint_minus_simple_alt [THEN iffD1])
  with a show "uint (max_queue_delay_ns iq) < uint (clock i) - uint (BatcherStartNs (h (ms ! i)))"
    by (simp add: word_less_def)
next
  assume "\<not> mqd < clock k - BatcherStartNs (h front)"
  then show "merge_loop compatible clock mbs mqd payload k h (front # rest) ms0 =
        Inr (h, front # rest, ms0)"
    by simp
qed

theorem merge_only_past_delay_witness:
  "Dequeue always_compatible (\<lambda>_. 200) two_payloads two_queued [] =
     Inr (0, [Suc 0],
          two_payloads(0 := (SetState EXECUTING (fresh 1 0))\<lparr>payload_batch_size := 2\<rparr>,
                       Suc 0 := SetState EXECUTING (fresh 1 50)),
          two_queued\<lparr>payload_queue := []\<rparr>) \<and>
   max_queue_delay_ns two_queued < 200 - BatcherStartNs (two_payloads (Suc 0)) \<and>
   uint (max_queue_delay_ns two_queued) <
     uint (200 :: uint64_t) - uint (BatcherStartNs (two_payloads (Suc 0))) \<and>
   \<not> (100 :: uint64_t) < 60 - BatcherStartNs (two_payloads (Suc 0)) \<and>
   merge_loop always_compatible (\<lambda>_. 60) 10 100 0 0 two_payloads [Suc 0] [] =
     Inr (two_payloads, [Suc 0], [])"
proof -
  let ?h' = "two_payloads(0 := (SetState EXECUTING (fresh 1 0))\<lparr>payload_batch_size := 2\<rparr>,
                       Suc 0 := SetState EXECUTING (fresh 1 50))"
  have d: "Dequeue always_compatible (\<lambda>_. 200) two_payloads two_queued [] =
     Inr (0, [Suc 0], ?h', two_queued\<lparr>payload_queue := []\<rparr>)"
    by (simp add: Dequeue_def two_queued_simps two_payloads_def fresh_def Let_def
        IsSaturated_def BatcherStartNs_def BatchSize_def SetState_def MergePayload_def
        always_compatible_def fun_upd_twist)
  have le: "BatcherStartNs (two_payloads (Suc 0)) \<le> 200"
    by (simp add: two_payloads_def)
  have n: "\<not> (100 :: uint64_t) < 60 - BatcherStartNs (two_payloads (Suc 0))"
    by (simp add: two_payloads_def)
  from merge_only_past_delay [where compatible = always_compatible and clock = "\<lambda>_. 200"
      and h = two_payloads and iq = two_queued and p = 0 and ms = "[Suc 0]" and h' = ?h'
      and iq' = "two_queued\<lparr>payload_queue := []\<rparr>"] d le
  have a: "max_queue_delay_ns two_queued < 200 - BatcherStartNs (two_payloads (Suc 0)) \<and>
    uint (max_queue_delay_ns two_queued) <
      uint (200 :: uint64_t) - uint (BatcherStartNs (two_payloads (Suc 0)))"
    by simp
  from merge_only_past_delay [where compatible = always_compatible and clock = "\<lambda>_. 60"
      and h = two_payloads and mqd = 100 and k = 0 and front = "Suc 0" and mbs = 10
      and payload = 0 and rest = "[]" and ?ms0.0 = "[]"] n
  have b: "merge_loop always_compatible (\<lambda>_. 60) 10 100 0 0 two_payloads [Suc 0] [] =
     Inr (two_payloads, [Suc 0], [])"
    by blast
  from d a n b show ?thesis by simp
qed

subsection \<open>Batch-size cap\<close>

text \<open>
  C3. A call of \<open>Dequeue\<close> never merges a candidate that does not fit: for every payload
  it reports as merged, the batch size of the dispatched payload at that moment (its own,
  grown by the payloads merged before) plus the candidate's batch size was at most
  \<open>max_batch_size\<close>. In any iteration of the loop, with a candidate other than the
  dispatched payload at the front of the queue: when the sum exceeds \<open>max_batch_size\<close>, the
  loop ends, the candidate is still at the front of the queue and the merged vector is as
  it was (the candidate has been marked as executing if it had passed the tests of
  saturation and age). The sum is the one the code computes, on \<open>size_t\<close>, and so the sum
  of the two numbers whenever that is below \<open>2 ^ 64\<close>. When the sum of the two numbers is
  at most \<open>max_batch_size\<close>, equality included, and the candidate is unsaturated, older than
  the delay and compatible, it is merged: it is popped from the queue and appended to the
  merged vector, the dispatched payload's batch size becomes the sum, and the loop goes on
  with the rest of the queue.
\<close>

theorem batch_size_cap:
  "(Dequeue compatible clock h iq [] = Inr (p, ms, h', iq') \<longrightarrow>
      (\<forall>i<length ms.
          BatchSize (h p) + (\<Sum>x\<leftarrow>take i ms. BatchSize (h x)) + BatchSize (h (ms ! i))
            \<le> max_batch_size iq)) \<and>
   (front \<noteq> payload \<and> \<not> BatchSize (h payload) + BatchSize (h front) \<le> mbs \<longrightarrow>
      merge_loop compatible clock mbs mqd payload k h (front # rest) ms0 =
        Inr (if \<not> IsSaturated (h front) \<and> mqd < clock k - BatcherStartNs (h front)
             then h(front := SetState EXECUTING (h front)) else h, front # rest, ms0)) \<and>
   (front \<noteq> payload \<and>
    unat (BatchSize (h payload)) + unat (BatchSize (h front)) < 2 ^ 64 \<and>
    unat mbs < unat (BatchSize (h payload)) + unat (BatchSize (h front)) \<longrightarrow>
      merge_loop compatible clock mbs mqd payload k h (front # rest) ms0 =
        Inr (if \<not> IsSaturated (h front) \<and> mqd < clock k - BatcherStartNs (h front)
             then h(front := SetState EXECUTING (h front)) else h, front # rest, ms0)) \<and>
   (front \<noteq> payload \<and> \<not> IsSaturated (h front) \<and>
    mqd < clock k - BatcherStartNs (h front) \<and>
    compatible (h payload) (SetState EXECUTING (h front)) \<and>
    unat (BatchSize (h payload)) + unat (BatchSize (h front)) \<le> unat mbs \<longrightarrow>
      merge_loop compatible clock mbs mqd payload k h (front # rest) ms0 =
        merge_loop compatible clock mbs mqd payload (Suc k)
          (h(front := SetState EXECUTING (h front),
             payload := (h payload)\<lparr>payload_batch_size :=
                 BatchSize (h payload) + BatchSize (h front)\<rparr>))
          rest (ms0 @ [front]))"
proof (intro conjI impI)
  assume "Dequeue compatible clock h iq [] = Inr (p, ms, h', iq')"
  then show "\<forall>i<length ms.
          BatchSize (h p) + (\<Sum>x\<leftarrow>take i ms. BatchSize (h x)) + BatchSize (h (ms ! i))
            \<le> max_batch_size iq"
    by (rule Dequeue_merged_fit)
next
  assume "front \<noteq> payload \<and> \<not> BatchSize (h payload) + BatchSize (h front) \<le> mbs"
  then show "merge_loop compatible clock mbs mqd payload k h (front # rest) ms0 =
        Inr (if \<not> IsSaturated (h front) \<and> mqd < clock k - BatcherStartNs (h front)
             then h(front := SetState EXECUTING (h front)) else h, front # rest, ms0)"
    by (intro merge_loop_unfit) simp_all
next
  assume a: "front \<noteq> payload \<and>
    unat (BatchSize (h payload)) + unat (BatchSize (h front)) < 2 ^ 64 \<and>
    unat mbs < unat (BatchSize (h payload)) + unat (BatchSize (h front))"
  then have "\<not> BatchSize (h payload) + BatchSize (h front) \<le> mbs"
    using word_sum_le_iff [of "BatchSize (h payload)" "BatchSize (h front)" mbs] by simp
  with a show "merge_loop compatible clock mbs mqd payload k h (front # rest) ms0 =
        Inr (if \<not> IsSaturated (h front) \<and> mqd < clock k - BatcherStartNs (h front)
             then h(front := SetState EXECUTING (h front)) else h, front # rest, ms0)"
    by (intro merge_loop_unfit) simp_all
next
  assume "front \<noteq> payload \<and> \<not> IsSaturated (h front) \<and>
    mqd < clock k - BatcherStartNs (h front) \<and>
    compatible (h payload) (SetState EXECUTING (h front)) \<and>
    unat (BatchSize (h payload)) + unat (BatchSize (h front)) \<le> unat mbs"
  then show "merge_loop compatible clock mbs mqd payload k h (front # rest) ms0 =
        merge_loop compatible clock mbs mqd payload (Suc k)
          (h(front := SetState EXECUTING (h front),
             payload := (h payload)\<lparr>payload_batch_size :=
                 BatchSize (h payload) + BatchSize (h front)\<rparr>))
          rest (ms0 @ [front])"
    by (intro merge_loop_merged) simp_all
qed

lemma sized_queued_simps:
  "payload_queue sized_queued = [0, 2, Suc 0]" "max_batch_size sized_queued = 10"
  "max_queue_delay_ns sized_queued = 100"
  by (simp_all add: sized_queued_def Enqueue_def InstanceQueue_init_def)

theorem batch_size_cap_witness:
  "Dequeue always_compatible (steady 500) sized_payloads sized_queued [] =
     Inr (0, [2],
          sized_payloads(0 := (SetState EXECUTING (fresh 6 0))\<lparr>payload_batch_size := 10\<rparr>,
                         2 := SetState EXECUTING (fresh 4 0),
                         Suc 0 := SetState EXECUTING (fresh 5 0)),
          sized_queued\<lparr>payload_queue := [Suc 0]\<rparr>) \<and>
   BatchSize (sized_payloads 0) + 0 + BatchSize (sized_payloads 2) \<le> max_batch_size sized_queued \<and>
   merge_loop always_compatible (steady 500) 10 100 0 0 sized_payloads [Suc 0] [] =
     Inr (sized_payloads(Suc 0 := SetState EXECUTING (sized_payloads (Suc 0))), [Suc 0], []) \<and>
   merge_loop always_compatible (steady 500) 10 100 0 0 sized_payloads [2] [] =
     Inr (sized_payloads(2 := SetState EXECUTING (sized_payloads 2),
                         0 := (sized_payloads 0)\<lparr>payload_batch_size := 10\<rparr>), [], [2])"
proof -
  let ?h' = "sized_payloads(0 := (SetState EXECUTING (fresh 6 0))\<lparr>payload_batch_size := 10\<rparr>,
                         2 := SetState EXECUTING (fresh 4 0),
                         Suc 0 := SetState EXECUTING (fresh 5 0))"
  have s: "sized_payloads 0 = fresh 6 0" "sized_payloads (Suc 0) = fresh 5 0"
    "sized_payloads 2 = fresh 4 0"
    by (simp_all add: sized_payloads_def)
  have c: "always_compatible (sized_payloads 0) (SetState EXECUTING (sized_payloads 2))"
    by (simp add: always_compatible_def)
  have d: "Dequeue always_compatible (steady 500) sized_payloads sized_queued [] =
     Inr (0, [2], ?h', sized_queued\<lparr>payload_queue := [Suc 0]\<rparr>)"
    by (simp add: Dequeue_def sized_queued_simps sized_payloads_def fresh_def Let_def
        IsSaturated_def BatcherStartNs_def BatchSize_def SetState_def MergePayload_def
        always_compatible_def steady_def fun_upd_twist)
  from batch_size_cap [where compatible = always_compatible and clock = "steady 500"
      and h = sized_payloads and iq = sized_queued and p = 0 and ms = "[2]" and h' = ?h'
      and iq' = "sized_queued\<lparr>payload_queue := [Suc 0]\<rparr>"] d
  have w: "BatchSize (sized_payloads 0) + 0 + BatchSize (sized_payloads 2)
             \<le> max_batch_size sized_queued"
    by simp
  from batch_size_cap [where front = "Suc 0" and payload = 0 and h = sized_payloads
      and mbs = 10 and mqd = 100 and clock = "steady 500" and k = 0
      and compatible = always_compatible and rest = "[]" and ?ms0.0 = "[]"]
  have a: "merge_loop always_compatible (steady 500) 10 100 0 0 sized_payloads [Suc 0] [] =
     Inr (sized_payloads(Suc 0 := SetState EXECUTING (sized_payloads (Suc 0))), [Suc 0], [])"
    by (simp add: s steady_def)
  from batch_size_cap [where front = 2 and payload = 0 and h = sized_payloads
      and mbs = 10 and mqd = 100 and clock = "steady 500" and k = 0
      and compatible = always_compatible and rest = "[]" and ?ms0.0 = "[]"] c
  have b: "merge_loop always_compatible (steady 500) 10 100 0 0 sized_payloads [2] [] =
     Inr (sized_payloads(2 := SetState EXECUTING (sized_payloads 2),
                         0 := (sized_payloads 0)\<lparr>payload_batch_size := 10\<rparr>), [], [2])"
    by (simp add: s steady_def)
  from d w a b show ?thesis by blast
qed

subsection \<open>First in, first out when merging is disabled\<close>

text \<open>
  C4. Merging is disabled when \<open>max_queue_delay_ns\<close> is 0 or \<open>max_batch_size\<close> is at most
  1. Then \<open>N\<close> calls of \<open>Enqueue\<close> on an empty queue followed by \<open>N\<close> calls of \<open>Dequeue\<close>,
  whatever the clock shows, return the payloads in the order in which they were enqueued,
  each with an empty vector of merged payloads; every payload has been marked as executing
  and the queue is empty again.
\<close>

theorem fifo_without_merge:
  assumes "max_queue_delay_ns iq = 0 \<or> max_batch_size iq \<le> 1"
    and "payload_queue iq = []" and "length clocks = length ps"
  shows "run compatible (map CallEnqueue ps @ map CallDequeue clocks) h iq [] =
           Inr (map (\<lambda>p. (p, [])) ps, fold executing ps h, iq)"
proof -
  let ?iq1 = "iq\<lparr>payload_queue := payload_queue iq @ ps\<rparr>"
  from assms(1) have dis: "max_queue_delay_ns ?iq1 = 0 \<or> max_batch_size ?iq1 \<le> 1" by simp
  have q: "payload_queue ?iq1 = ps @ []" using assms(2) by simp
  from run_dequeues_disabled [OF dis q assms(3), of compatible h "[]"] assms(2)
  show ?thesis by (simp add: run_enqueues)
qed

theorem fifo_without_merge_witness:
  "run always_compatible
     (map CallEnqueue [0, Suc 0, 2] @ map CallDequeue [\<lambda>_. 500, \<lambda>_. 600, \<lambda>_. 700])
     four_payloads (InstanceQueue_init 10 0) [] =
     Inr ([(0, []), (Suc 0, []), (2, [])],
          executing 2 (executing (Suc 0) (executing 0 four_payloads)),
          InstanceQueue_init 10 0)"
proof -
  have a: "max_queue_delay_ns (InstanceQueue_init 10 0) = 0 \<or>
           max_batch_size (InstanceQueue_init 10 0) \<le> 1"
    and b: "payload_queue (InstanceQueue_init 10 0) = []"
    by (simp_all add: InstanceQueue_init_def)
  have c: "length [\<lambda>_::nat. 500 :: uint64_t, \<lambda>_. 600, \<lambda>_. 700] = length [0 :: handle, Suc 0, 2]"
    by simp
  from fifo_without_merge [OF a b c, of always_compatible four_payloads]
  show ?thesis by simp
qed

subsection \<open>Saturation blocks merging\<close>

text \<open>
  C5. When the payload at the head of the queue is saturated, \<open>Dequeue\<close> returns it
  without merging: the vector of merged payloads is returned as it was passed in and the
  queue has lost its head only. In any iteration of the loop, a saturated candidate at the
  front of the queue ends the loop, whatever its age and batch size: the store, the queue
  and the merged vector are returned as they are. And no payload that a call of \<open>Dequeue\<close>
  reports as merged was saturated.
\<close>

theorem saturation_blocks_merge:
  "(payload_queue iq = p # q \<and> IsSaturated (h p) \<longrightarrow>
      Dequeue compatible clock h iq ms0 =
        Inr (p, ms0, h(p := SetState EXECUTING (h p)), iq\<lparr>payload_queue := q\<rparr>)) \<and>
   (IsSaturated (h front) \<longrightarrow>
      merge_loop compatible clock mbs mqd payload k h (front # rest) ms0 =
        Inr (h, front # rest, ms0)) \<and>
   (Dequeue compatible clock h iq [] = Inr (p', ms, h', iq') \<longrightarrow>
      (\<forall>x\<in>set ms. \<not> IsSaturated (h x)))"
proof (intro conjI impI ballI)
  assume "payload_queue iq = p # q \<and> IsSaturated (h p)"
  then show "Dequeue compatible clock h iq ms0 =
        Inr (p, ms0, h(p := SetState EXECUTING (h p)), iq\<lparr>payload_queue := q\<rparr>)"
    by (simp add: Dequeue_def)
next
  assume "IsSaturated (h front)"
  then show "merge_loop compatible clock mbs mqd payload k h (front # rest) ms0 =
        Inr (h, front # rest, ms0)"
    by simp
next
  fix x
  assume d: "Dequeue compatible clock h iq [] = Inr (p', ms, h', iq')" and "x \<in> set ms"
  then obtain i where "i < length ms" "x = ms ! i" by (auto simp: in_set_conv_nth)
  with Dequeue_merged_eligible [OF d] show "\<not> IsSaturated (h x)" by simp
qed

theorem saturation_blocks_merge_witness:
  "Dequeue always_compatible (\<lambda>_. 500) saturated_head two_queued [] =
     Inr (0, [], saturated_head(0 := SetState EXECUTING (saturated_head 0)),
          two_queued\<lparr>payload_queue := [Suc 0]\<rparr>) \<and>
   merge_loop always_compatible (\<lambda>_. 500) 10 100 0 0 saturated_front [Suc 0] [] =
     Inr (saturated_front, [Suc 0], []) \<and>
   Dequeue always_compatible (\<lambda>_. 200) two_payloads two_queued [] =
     Inr (0, [Suc 0],
          two_payloads(0 := (SetState EXECUTING (fresh 1 0))\<lparr>payload_batch_size := 2\<rparr>,
                       Suc 0 := SetState EXECUTING (fresh 1 50)),
          two_queued\<lparr>payload_queue := []\<rparr>) \<and>
   \<not> IsSaturated (two_payloads (Suc 0))"
proof -
  let ?h' = "two_payloads(0 := (SetState EXECUTING (fresh 1 0))\<lparr>payload_batch_size := 2\<rparr>,
                       Suc 0 := SetState EXECUTING (fresh 1 50))"
  have s: "IsSaturated (saturated_head 0)" "IsSaturated (saturated_front (Suc 0))"
    by (simp_all add: saturated_head_def saturated_front_def IsSaturated_def)
  have d: "Dequeue always_compatible (\<lambda>_. 200) two_payloads two_queued [] =
     Inr (0, [Suc 0], ?h', two_queued\<lparr>payload_queue := []\<rparr>)"
    by (simp add: Dequeue_def two_queued_simps two_payloads_def fresh_def Let_def
        IsSaturated_def BatcherStartNs_def BatchSize_def SetState_def MergePayload_def
        always_compatible_def fun_upd_twist)
  from saturation_blocks_merge [where iq = two_queued and p = 0 and q = "[Suc 0]"
      and h = saturated_head and compatible = always_compatible and clock = "\<lambda>_. 500"
      and ?ms0.0 = "[]"] s(1)
  have a: "Dequeue always_compatible (\<lambda>_. 500) saturated_head two_queued [] =
     Inr (0, [], saturated_head(0 := SetState EXECUTING (saturated_head 0)),
          two_queued\<lparr>payload_queue := [Suc 0]\<rparr>)"
    by (simp add: two_queued_simps)
  from saturation_blocks_merge [where h = saturated_front and front = "Suc 0"
      and compatible = always_compatible and clock = "\<lambda>_. 500" and mbs = 10 and mqd = 100
      and payload = 0 and k = 0 and rest = "[]" and ?ms0.0 = "[]"] s(2)
  have b: "merge_loop always_compatible (\<lambda>_. 500) 10 100 0 0 saturated_front [Suc 0] [] =
     Inr (saturated_front, [Suc 0], [])"
    by blast
  from saturation_blocks_merge [where h = two_payloads and iq = two_queued
      and compatible = always_compatible and clock = "\<lambda>_. 200" and p' = 0
      and ms = "[Suc 0]" and h' = ?h' and iq' = "two_queued\<lparr>payload_queue := []\<rparr>"] d
  have c: "\<not> IsSaturated (two_payloads (Suc 0))"
    by simp
  from a b c d show ?thesis by blast
qed

subsection \<open>A failed merge\<close>

text \<open>
  C6. In any iteration of the loop in which the candidate is unsaturated, older than the
  delay and fits, and \<open>MergePayload\<close> returns a status that is not ok, the loop ends and
  returns normally: the candidate is not popped, it is not appended to the merged vector,
  and it is left at the front of the queue, its state already set to \<open>EXECUTING\<close>. When
  this happens to the first candidate, \<open>Dequeue\<close> returns the head payload with the merged
  vector as it was passed in.
\<close>

theorem merge_failure_recovered:
  "(front \<noteq> payload \<and> \<not> IsSaturated (h front) \<and>
    mqd < clock k - BatcherStartNs (h front) \<and>
    BatchSize (h payload) + BatchSize (h front) \<le> mbs \<and>
    MergePayload compatible (h payload) (SetState EXECUTING (h front)) = None \<longrightarrow>
      merge_loop compatible clock mbs mqd payload k h (front # rest) ms0 =
        Inr (h(front := SetState EXECUTING (h front)), front # rest, ms0) \<and>
      payload_state ((h(front := SetState EXECUTING (h front))) front) = EXECUTING) \<and>
   (payload_queue iq = payload # front # rest \<and> front \<noteq> payload \<and>
    0 < max_queue_delay_ns iq \<and> 1 < max_batch_size iq \<and> \<not> IsSaturated (h payload) \<and>
    \<not> IsSaturated (h front) \<and>
    max_queue_delay_ns iq < clock 0 - BatcherStartNs (h front) \<and>
    BatchSize (h payload) + BatchSize (h front) \<le> max_batch_size iq \<and>
    MergePayload compatible (SetState EXECUTING (h payload)) (SetState EXECUTING (h front)) = None \<longrightarrow>
      Dequeue compatible clock h iq ms0 =
        Inr (payload, ms0,
             h(payload := SetState EXECUTING (h payload), front := SetState EXECUTING (h front)),
             iq\<lparr>payload_queue := front # rest\<rparr>))"
proof (intro conjI impI)
  assume "front \<noteq> payload \<and> \<not> IsSaturated (h front) \<and>
    mqd < clock k - BatcherStartNs (h front) \<and>
    BatchSize (h payload) + BatchSize (h front) \<le> mbs \<and>
    MergePayload compatible (h payload) (SetState EXECUTING (h front)) = None"
  then show "merge_loop compatible clock mbs mqd payload k h (front # rest) ms0 =
        Inr (h(front := SetState EXECUTING (h front)), front # rest, ms0)"
    by (intro merge_loop_failed) simp_all
  show "payload_state ((h(front := SetState EXECUTING (h front))) front) = EXECUTING"
    by simp
next
  let ?h0 = "h(payload := SetState EXECUTING (h payload))"
  assume a: "payload_queue iq = payload # front # rest \<and> front \<noteq> payload \<and>
    0 < max_queue_delay_ns iq \<and> 1 < max_batch_size iq \<and> \<not> IsSaturated (h payload) \<and>
    \<not> IsSaturated (h front) \<and>
    max_queue_delay_ns iq < clock 0 - BatcherStartNs (h front) \<and>
    BatchSize (h payload) + BatchSize (h front) \<le> max_batch_size iq \<and>
    MergePayload compatible (SetState EXECUTING (h payload)) (SetState EXECUTING (h front)) = None"
  then have "merge_loop compatible clock (max_batch_size iq) (max_queue_delay_ns iq) payload 0
               ?h0 (front # rest) ms0 =
             Inr (?h0(front := SetState EXECUTING (?h0 front)), front # rest, ms0)"
    by (intro merge_loop_failed) simp_all
  with a show "Dequeue compatible clock h iq ms0 =
        Inr (payload, ms0,
             h(payload := SetState EXECUTING (h payload), front := SetState EXECUTING (h front)),
             iq\<lparr>payload_queue := front # rest\<rparr>)"
    by (simp add: Dequeue_def)
qed

theorem merge_failure_recovered_witness:
  "merge_loop never_compatible (\<lambda>_. 500) 10 100 0 0 two_payloads [Suc 0] [] =
     Inr (two_payloads(Suc 0 := SetState EXECUTING (two_payloads (Suc 0))), [Suc 0], []) \<and>
   payload_state
     ((two_payloads(Suc 0 := SetState EXECUTING (two_payloads (Suc 0)))) (Suc 0)) = EXECUTING \<and>
   Dequeue never_compatible (\<lambda>_. 500) two_payloads two_queued [] =
     Inr (0, [],
          two_payloads(0 := SetState EXECUTING (two_payloads 0),
                       Suc 0 := SetState EXECUTING (two_payloads (Suc 0))),
          two_queued\<lparr>payload_queue := [Suc 0]\<rparr>)"
proof -
  have s: "two_payloads 0 = fresh 1 0" "two_payloads (Suc 0) = fresh 1 50"
    by (simp_all add: two_payloads_def)
  have m: "MergePayload never_compatible x y = None" for x y
    by (simp add: MergePayload_def never_compatible_def)
  from merge_failure_recovered [where front = "Suc 0" and payload = 0 and h = two_payloads
      and mqd = 100 and mbs = 10 and clock = "\<lambda>_. 500" and k = 0
      and compatible = never_compatible and rest = "[]" and ?ms0.0 = "[]" and iq = two_queued]
  show ?thesis by (simp add: s m two_queued_simps)
qed

subsection \<open>Greedy chaining\<close>

text \<open>
  C7. Let merging be enabled and the head of the queue be unsaturated and queued once.
  If the payloads \<open>cs\<close> right behind the head are all unsaturated, each older than the
  delay at the clock reading of its iteration, the batch sizes of the head and of all of
  \<open>cs\<close> together do not exceed \<open>max_batch_size\<close> (so that each of them fits in what the
  ones before it have left), and each merge succeeds (\<open>MergePayload\<close> returns ok for the
  head as it is after the merges before), then one call of \<open>Dequeue\<close> merges all of \<open>cs\<close>
  into the head, in their order in the queue. The loop reaches the rest of the queue in
  its iteration number \<open>length cs\<close> with \<open>cs\<close> in the merged vector and with the store in
  which the head's batch size has grown by those of \<open>cs\<close>, every payload of \<open>cs\<close> is marked
  as executing and nothing else has changed. The call returns normally: the merged vector
  starts with \<open>cs\<close>, what follows was taken from the front of the rest of the queue, and in
  the store it returns the head is executing, its batch size has grown by those of all
  merged payloads, and each merged payload is marked as executing. When nothing is queued
  behind \<open>cs\<close>, the result is exactly \<open>cs\<close> and that store.
\<close>

theorem greedy_chaining:
  assumes "payload_queue iq = p # cs @ rest"
    and "p \<notin> set (cs @ rest)"
    and "0 < max_queue_delay_ns iq" and "1 < max_batch_size iq"
    and "\<not> IsSaturated (h p)"
    and "\<forall>i<length cs. \<not> IsSaturated (h (cs ! i)) \<and>
            max_queue_delay_ns iq < clock i - BatcherStartNs (h (cs ! i))"
    and "unat (BatchSize (h p)) + (\<Sum>c\<leftarrow>cs. unat (BatchSize (h c))) \<le> unat (max_batch_size iq)"
    and "\<forall>i<length cs.
           MergePayload compatible (absorbed p (take i cs) (executing p h) p)
             (SetState EXECUTING (h (cs ! i))) \<noteq> None"
  shows "Dequeue compatible clock h iq [] =
           (case merge_loop compatible clock (max_batch_size iq) (max_queue_delay_ns iq) p
                   (length cs) (absorbed p cs (executing p h)) rest cs of
              Inl e \<Rightarrow> Inl e
            | Inr (h', q', ms) \<Rightarrow> Inr (p, ms, h', iq\<lparr>payload_queue := q'\<rparr>)) \<and>
         (\<exists>more h' q'.
            Dequeue compatible clock h iq [] =
              Inr (p, cs @ more, h', iq\<lparr>payload_queue := q'\<rparr>) \<and>
            rest = more @ q' \<and>
            payload_state (h' p) = EXECUTING \<and>
            BatchSize (h' p) = BatchSize (h p) + (\<Sum>x\<leftarrow>cs @ more. BatchSize (h x)) \<and>
            (\<forall>x\<in>set (cs @ more). payload_state (h' x) = EXECUTING)) \<and>
         (rest = [] \<longrightarrow>
            Dequeue compatible clock h iq [] =
              Inr (p, cs, absorbed p cs (executing p h), iq\<lparr>payload_queue := []\<rparr>))"
proof -
  let ?h0 = "executing p h"
  let ?mbs = "max_batch_size iq" and ?mqd = "max_queue_delay_ns iq"
  let ?loop = "merge_loop compatible clock ?mbs ?mqd p (length cs) (absorbed p cs ?h0) rest cs"
  from assms(2) have notin: "p \<notin> set cs" "p \<notin> set rest" by auto
  have fr: "IsSaturated (?h0 x) = IsSaturated (h x)"
      "BatcherStartNs (?h0 x) = BatcherStartNs (h x)"
      "BatchSize (?h0 x) = BatchSize (h x)" for x
    by (simp_all add: executing_def)
  have p2: "\<forall>i<length cs. \<not> IsSaturated (?h0 (cs ! i)) \<and>
            ?mqd < clock (0 + i) - BatcherStartNs (?h0 (cs ! i))"
    unfolding fr using assms(6) by simp
  have p3: "unat (BatchSize (?h0 p)) + (\<Sum>c\<leftarrow>cs. unat (BatchSize (?h0 c))) \<le> unat ?mbs"
    unfolding fr using assms(7) .
  have p4: "\<forall>i<length cs.
           MergePayload compatible (absorbed p (take i cs) ?h0 p)
             (SetState EXECUTING (?h0 (cs ! i))) \<noteq> None"
  proof (intro allI impI)
    fix i assume i: "i < length cs"
    with notin have "cs ! i \<noteq> p" by auto
    then have "?h0 (cs ! i) = h (cs ! i)" by (simp add: executing_def)
    with assms(8) i show "MergePayload compatible (absorbed p (take i cs) ?h0 p)
             (SetState EXECUTING (?h0 (cs ! i))) \<noteq> None"
      by simp
  qed
  have ch: "merge_loop compatible clock ?mbs ?mqd p 0 ?h0 (cs @ rest) [] = ?loop"
    using merge_loop_chain [OF notin(1) p2 p3 p4, of rest "[]"] by simp
  have eq: "Dequeue compatible clock h iq [] =
           (case ?loop of
              Inl e \<Rightarrow> Inl e
            | Inr (h', q', ms) \<Rightarrow> Inr (p, ms, h', iq\<lparr>payload_queue := q'\<rparr>))"
  proof (cases "cs @ rest = []")
    case True
    with assms(1) show ?thesis by (simp add: Dequeue_def Let_def executing_def)
  next
    case False
    with assms(1,3,4,5) ch show ?thesis
      by (simp add: Dequeue_def Let_def executing_def [symmetric] fr)
  qed
  from merge_loop_returns [OF notin(2)] obtain h' q' ms' where
    r: "?loop = Inr (h', q', ms')"
    by (metis prod_cases3)
  from merge_loop_takes [OF r] obtain more where m: "ms' = cs @ more" "rest = more @ q'"
    by blast
  from eq r m have d: "Dequeue compatible clock h iq [] =
      Inr (p, cs @ more, h', iq\<lparr>payload_queue := q'\<rparr>)"
    by simp
  from Dequeue_absorbs [OF d] d m(2)
  have ex: "\<exists>more h' q'.
            Dequeue compatible clock h iq [] =
              Inr (p, cs @ more, h', iq\<lparr>payload_queue := q'\<rparr>) \<and>
            rest = more @ q' \<and>
            payload_state (h' p) = EXECUTING \<and>
            BatchSize (h' p) = BatchSize (h p) + (\<Sum>x\<leftarrow>cs @ more. BatchSize (h x)) \<and>
            (\<forall>x\<in>set (cs @ more). payload_state (h' x) = EXECUTING)"
    by blast
  have last: "rest = [] \<longrightarrow>
            Dequeue compatible clock h iq [] =
              Inr (p, cs, absorbed p cs (executing p h), iq\<lparr>payload_queue := []\<rparr>)"
    using eq by simp
  from eq ex last show ?thesis by blast
qed

theorem greedy_chaining_witness:
  "Dequeue (receiver_below 8) (steady 500) four_payloads four_queued [] =
     Inr (0, [Suc 0, 2, 3], absorbed 0 [Suc 0, 2, 3] (executing 0 four_payloads),
          four_queued\<lparr>payload_queue := []\<rparr>) \<and>
   absorbed 0 [Suc 0, 2, 3] (executing 0 four_payloads) 0 =
     \<lparr>payload_state = EXECUTING, payload_batch_size = 8, payload_saturated = False,
      payload_batcher_start_ns = 0\<rparr> \<and>
   absorbed 0 [Suc 0, 2, 3] (executing 0 four_payloads) 3 =
     \<lparr>payload_state = EXECUTING, payload_batch_size = 2, payload_saturated = False,
      payload_batcher_start_ns = 0\<rparr> \<and>
   absorbed 0 [Suc 0, 2, 3] (executing 0 four_payloads) 4 = fresh 2 0"
proof -
  have a: "payload_queue four_queued = 0 # [Suc 0, 2, 3] @ []"
    and b: "0 \<notin> set ([Suc 0, 2, 3] @ [])"
    and c: "0 < max_queue_delay_ns four_queued" "1 < max_batch_size four_queued"
    and d: "\<not> IsSaturated (four_payloads 0)"
    by (simp_all add: four_queued_simps four_payloads_def)
  have e: "\<forall>i<length [Suc 0, 2, 3]. \<not> IsSaturated (four_payloads ([Suc 0, 2, 3] ! i)) \<and>
            max_queue_delay_ns four_queued <
              steady 500 i - BatcherStartNs (four_payloads ([Suc 0, 2, 3] ! i))"
    by (simp add: four_queued_simps four_payloads_def steady_def)
  have f: "unat (BatchSize (four_payloads 0)) +
             (\<Sum>c\<leftarrow>[Suc 0, 2, 3]. unat (BatchSize (four_payloads c)))
           \<le> unat (max_batch_size four_queued)"
    by (simp add: four_queued_simps four_payloads_def)
  have g: "\<forall>i<length [Suc 0, 2, 3].
             MergePayload (receiver_below 8)
               (absorbed 0 (take i [Suc 0, 2, 3]) (executing 0 four_payloads) 0)
               (SetState EXECUTING (four_payloads ([Suc 0, 2, 3] ! i))) \<noteq> None"
    by (simp add: All_less_Suc MergePayload_def receiver_below_def absorbed_def executing_def
        four_payloads_def fresh_def BatchSize_def SetState_def)
  have v: "absorbed 0 [Suc 0, 2, 3] (executing 0 four_payloads) 0 =
     \<lparr>payload_state = EXECUTING, payload_batch_size = 8, payload_saturated = False,
      payload_batcher_start_ns = 0\<rparr>"
    "absorbed 0 [Suc 0, 2, 3] (executing 0 four_payloads) 3 =
     \<lparr>payload_state = EXECUTING, payload_batch_size = 2, payload_saturated = False,
      payload_batcher_start_ns = 0\<rparr>"
    "absorbed 0 [Suc 0, 2, 3] (executing 0 four_payloads) 4 = fresh 2 0"
    by (simp_all add: absorbed_def executing_def four_payloads_def fresh_def BatchSize_def
        SetState_def)
  from greedy_chaining [OF a b c d e f g] v show ?thesis by simp
qed

subsection \<open>The count of waiting consumers\<close>

text \<open>
  C8 (as amended). In every sequence of calls that the code can execute on a newly
  constructed queue, the counter of waiting consumers changes only in
  \<open>IncrementConsumerCount\<close> and \<open>DecrementConsumerCount\<close> (calls of \<open>Enqueue\<close> and \<open>Dequeue\<close>
  may be interleaved) and \<open>WaitingConsumerCount\<close> returns the number of increments minus
  the number of decrements made so far. The counter is therefore non-negative exactly when
  no more decrements than increments have been made: \<open>DecrementConsumerCount\<close> has no
  guard.
\<close>

theorem consumer_count_net:
  assumes "run compatible calls h (InstanceQueue_init mbs mqd) [] = Inr (out, h', iq')"
  shows "WaitingConsumerCount iq' = int (increments calls) - int (decrements calls) \<and>
         (0 \<le> WaitingConsumerCount iq' \<longleftrightarrow> decrements calls \<le> increments calls)"
proof -
  from run_counter [OF assms]
  have "WaitingConsumerCount iq' = int (increments calls) - int (decrements calls)"
    by (simp add: InstanceQueue_init_def WaitingConsumerCount_def)
  then show ?thesis by auto
qed

theorem consumer_count_net_witness:
  "run always_compatible
     [CallIncrementConsumerCount, CallEnqueue 0, CallIncrementConsumerCount,
      CallDecrementConsumerCount, CallDequeue (\<lambda>_. 500)]
     four_payloads (InstanceQueue_init 10 100) [] =
     Inr ([(0, [])], executing 0 four_payloads,
          (InstanceQueue_init 10 100)\<lparr>waiting_consumer_count := 1\<rparr>) \<and>
   WaitingConsumerCount ((InstanceQueue_init 10 100)\<lparr>waiting_consumer_count := 1\<rparr>) = 2 - 1"
proof -
  let ?calls = "[CallIncrementConsumerCount, CallEnqueue 0, CallIncrementConsumerCount,
      CallDecrementConsumerCount, CallDequeue (\<lambda>_. 500)]"
  have r: "run always_compatible ?calls four_payloads (InstanceQueue_init 10 100) [] =
     Inr ([(0, [])], executing 0 four_payloads,
          (InstanceQueue_init 10 100)\<lparr>waiting_consumer_count := 1\<rparr>)"
    by (simp add: Dequeue_def Enqueue_def InstanceQueue_init_def IncrementConsumerCount_def
        DecrementConsumerCount_def INT_MAX_def INT_MIN_def executing_def)
  from consumer_count_net [OF r] r show ?thesis by simp
qed

text \<open>
  The claim as it was stated also says that the counter is never negative. It is, after
  a decrement on a newly constructed queue.
\<close>

theorem consumer_count_negative:
  "DecrementConsumerCount (InstanceQueue_init 10 100) =
     Inr ((InstanceQueue_init 10 100)\<lparr>waiting_consumer_count := - 1\<rparr>) \<and>
   WaitingConsumerCount ((InstanceQueue_init 10 100)\<lparr>waiting_consumer_count := - 1\<rparr>) < 0"
  by (simp add: DecrementConsumerCount_def InstanceQueue_init_def INT_MIN_def
      WaitingConsumerCount_def)

subsection \<open>The precondition of Dequeue\<close>

text \<open>
  C9 (as amended). \<open>Dequeue\<close> has two preconditions that no runtime check guards: the
  queue is not empty, and the payload at its head is not queued a second time behind
  itself. Under both, \<open>Dequeue\<close> reaches no error branch: it returns, and the payload it
  returns is the head of the queue. Whenever the queue is not empty the front access yields
  a value; on an empty queue the front access is the undefined \<open>front()\<close> of an empty deque.
\<close>

theorem Dequeue_precondition:
  "(payload_queue iq = p # q \<and> p \<notin> set q \<longrightarrow>
      (\<exists>ms h' iq'. Dequeue compatible clock h iq ms0 = Inr (p, ms, h', iq'))) \<and>
   (payload_queue iq \<noteq> [] \<longrightarrow> Dequeue compatible clock h iq ms0 \<noteq> Inl EmptyQueue) \<and>
   (payload_queue iq = [] \<longrightarrow> Dequeue compatible clock h iq ms0 = Inl EmptyQueue)"
proof (intro conjI impI)
  assume a: "payload_queue iq = p # q \<and> p \<notin> set q"
  let ?h0 = "h(p := SetState EXECUTING (h p))"
  from a merge_loop_returns [of p q compatible clock "max_batch_size iq" "max_queue_delay_ns iq"
      0 ?h0 ms0]
  obtain h' q' ms where
    "merge_loop compatible clock (max_batch_size iq) (max_queue_delay_ns iq) p 0 ?h0 q ms0 =
       Inr (h', q', ms)"
    by (metis prod_cases3)
  with a show "\<exists>ms h' iq'. Dequeue compatible clock h iq ms0 = Inr (p, ms, h', iq')"
    by (simp add: Dequeue_def Let_def)
next
  assume "payload_queue iq \<noteq> []"
  then obtain p q where q: "payload_queue iq = p # q" by (cases "payload_queue iq") auto
  let ?h0 = "h(p := SetState EXECUTING (h p))"
  have "merge_loop compatible clock mbs mqd p k g q' ms \<noteq> Inl EmptyQueue" for mbs mqd k g q' ms
    by (induction q' arbitrary: k g ms) (simp_all add: Let_def split: option.splits)
  with q show "Dequeue compatible clock h iq ms0 \<noteq> Inl EmptyQueue"
    by (auto simp: Dequeue_def Let_def split: sum.splits)
next
  assume "payload_queue iq = []"
  then show "Dequeue compatible clock h iq ms0 = Inl EmptyQueue"
    by (simp add: Dequeue_def)
qed

lemma twice_queued_simps:
  "payload_queue twice_queued = [0, 0]" "max_batch_size twice_queued = 10"
  "max_queue_delay_ns twice_queued = 100"
  by (simp_all add: twice_queued_def Enqueue_def InstanceQueue_init_def)

theorem Dequeue_precondition_witness:
  "(\<exists>ms h' iq'. Dequeue always_compatible (steady 500) four_payloads four_queued [] =
      Inr (0, ms, h', iq')) \<and>
   Dequeue always_compatible (steady 500) four_payloads twice_queued [] \<noteq> Inl EmptyQueue \<and>
   Dequeue always_compatible (steady 500) four_payloads (InstanceQueue_init 10 100) [] =
     Inl EmptyQueue"
proof -
  have a: "payload_queue four_queued = 0 # [Suc 0, 2, 3] \<and> 0 \<notin> set [Suc 0, 2, 3]"
    by (simp add: four_queued_simps)
  have b: "payload_queue twice_queued \<noteq> []"
    by (simp add: twice_queued_simps)
  have c: "payload_queue (InstanceQueue_init 10 100) = []"
    by (simp add: InstanceQueue_init_def)
  from Dequeue_precondition [where iq = four_queued and p = 0 and q = "[Suc 0, 2, 3]"
      and compatible = always_compatible and clock = "steady 500" and h = four_payloads
      and ?ms0.0 = "[]"] a
  have "\<exists>ms h' iq'. Dequeue always_compatible (steady 500) four_payloads four_queued [] =
      Inr (0, ms, h', iq')"
    by blast
  moreover from Dequeue_precondition [where iq = twice_queued
      and compatible = always_compatible and clock = "steady 500" and h = four_payloads
      and ?ms0.0 = "[]"] b
  have "Dequeue always_compatible (steady 500) four_payloads twice_queued [] \<noteq> Inl EmptyQueue"
    by blast
  moreover from Dequeue_precondition [where iq = "InstanceQueue_init 10 100"
      and compatible = always_compatible and clock = "steady 500" and h = four_payloads
      and ?ms0.0 = "[]"] c
  have "Dequeue always_compatible (steady 500) four_payloads (InstanceQueue_init 10 100) [] =
     Inl EmptyQueue"
    by blast
  ultimately show ?thesis by blast
qed

text \<open>
  The claim as it was stated has the first precondition only. With payload 0 queued
  twice the queue is not empty, and the loop locks the exec mutex of payload 0 while the
  call holds it.
\<close>

theorem Dequeue_nonempty_fault:
  "payload_queue twice_queued \<noteq> [] \<and>
   Dequeue always_compatible (steady 500) four_payloads twice_queued [] = Inl Relock"
  by (simp add: twice_queued_simps Dequeue_def four_payloads_def steady_def Let_def)

subsection \<open>The age of a payload stamped in the future\<close>

text \<open>
  C10 (as amended). The age of a candidate is the \<open>uint64_t\<close> difference of the clock
  reading and the candidate's \<open>batcher_start_ns\<close>. For a candidate whose start time is
  greater than the reading, the difference wraps around to \<open>2 ^ 64\<close> minus the distance of
  the two, and the candidate passes the test of age exactly when the delay plus that
  distance is below \<open>2 ^ 64\<close>. When it is not, the loop ends with the candidate queued;
  when it is, a candidate that is unsaturated, fits and is compatible is merged.
\<close>

theorem age_wraps_around:
  assumes "clock k < BatcherStartNs (h front)"
  shows "unat (clock k - BatcherStartNs (h front)) =
           2 ^ 64 - (unat (BatcherStartNs (h front)) - unat (clock k)) \<and>
         (mqd < clock k - BatcherStartNs (h front) \<longleftrightarrow>
            unat mqd + (unat (BatcherStartNs (h front)) - unat (clock k)) < 2 ^ 64) \<and>
         (\<not> unat mqd + (unat (BatcherStartNs (h front)) - unat (clock k)) < 2 ^ 64 \<longrightarrow>
            merge_loop compatible clock mbs mqd payload k h (front # rest) ms0 =
              Inr (h, front # rest, ms0)) \<and>
         (unat mqd + (unat (BatcherStartNs (h front)) - unat (clock k)) < 2 ^ 64 \<and>
          front \<noteq> payload \<and> \<not> IsSaturated (h front) \<and>
          compatible (h payload) (SetState EXECUTING (h front)) \<and>
          unat (BatchSize (h payload)) + unat (BatchSize (h front)) \<le> unat mbs \<longrightarrow>
            merge_loop compatible clock mbs mqd payload k h (front # rest) ms0 =
              merge_loop compatible clock mbs mqd payload (Suc k)
                (h(front := SetState EXECUTING (h front),
                   payload := (h payload)\<lparr>payload_batch_size :=
                       BatchSize (h payload) + BatchSize (h front)\<rparr>))
                rest (ms0 @ [front]))"
proof -
  let ?now = "clock k" and ?start = "BatcherStartNs (h front)"
  from assms have lt: "unat ?now < unat ?start" by (simp add: word_less_nat_alt)
  have b: "unat ?start < 2 ^ 64" "unat mqd < 2 ^ 64"
    by (rule size_t_bound)+
  from lt have w: "unat (?now - ?start) = 2 ^ 64 - (unat ?start - unat ?now)"
    using b by (simp add: unat_sub_if_size word_size)
  have e: "mqd < ?now - ?start \<longleftrightarrow> unat mqd + (unat ?start - unat ?now) < 2 ^ 64"
    unfolding word_less_nat_alt w using lt b by linarith
  have s: "\<not> mqd < ?now - ?start \<Longrightarrow>
      merge_loop compatible clock mbs mqd payload k h (front # rest) ms0 =
        Inr (h, front # rest, ms0)"
    by simp
  have m: "mqd < ?now - ?start \<Longrightarrow> front \<noteq> payload \<Longrightarrow> \<not> IsSaturated (h front) \<Longrightarrow>
      compatible (h payload) (SetState EXECUTING (h front)) \<Longrightarrow>
      unat (BatchSize (h payload)) + unat (BatchSize (h front)) \<le> unat mbs \<Longrightarrow>
      merge_loop compatible clock mbs mqd payload k h (front # rest) ms0 =
        merge_loop compatible clock mbs mqd payload (Suc k)
          (h(front := SetState EXECUTING (h front),
             payload := (h payload)\<lparr>payload_batch_size :=
                 BatchSize (h payload) + BatchSize (h front)\<rparr>))
          rest (ms0 @ [front])"
    by (rule merge_loop_merged)
  from w e s m show ?thesis by blast
qed

theorem age_wraps_around_witness:
  "steady 5 0 < BatcherStartNs (future_payloads 2) \<and>
   unat (steady 5 0 - BatcherStartNs (future_payloads 2)) = 2 ^ 64 - (10 - 5) \<and>
   (100 :: uint64_t) < steady 5 0 - BatcherStartNs (future_payloads 2) \<and>
   merge_loop always_compatible (steady 5) 10 100 0 0 future_payloads [2] [] =
     Inr (future_payloads(2 := SetState EXECUTING (future_payloads 2),
                          0 := (future_payloads 0)\<lparr>payload_batch_size := 2\<rparr>), [], [2]) \<and>
   merge_loop always_compatible (steady 5) 10 18446744073709551615 0 0 future_payloads [2] [] =
     Inr (future_payloads, [2], [])"
proof -
  have s: "future_payloads 0 = fresh 1 0" "future_payloads 2 = fresh 1 10"
    by (simp_all add: future_payloads_def)
  have a: "steady 5 0 < BatcherStartNs (future_payloads 2)"
    by (simp add: s steady_def)
  have c: "always_compatible (future_payloads 0) (SetState EXECUTING (future_payloads 2))"
    by (simp add: always_compatible_def)
  from age_wraps_around [where clock = "steady 5" and k = 0 and h = future_payloads
      and front = 2 and mqd = 100 and mbs = 10 and payload = 0 and rest = "[]"
      and ?ms0.0 = "[]" and compatible = always_compatible, OF a] c
  have x: "unat (steady 5 0 - BatcherStartNs (future_payloads 2)) = 2 ^ 64 - (10 - 5) \<and>
   (100 :: uint64_t) < steady 5 0 - BatcherStartNs (future_payloads 2) \<and>
   merge_loop always_compatible (steady 5) 10 100 0 0 future_payloads [2] [] =
     Inr (future_payloads(2 := SetState EXECUTING (future_payloads 2),
                          0 := (future_payloads 0)\<lparr>payload_batch_size := 2\<rparr>), [], [2])"
    by (simp add: s steady_def)
  from age_wraps_around [where clock = "steady 5" and k = 0 and h = future_payloads
      and front = 2 and mqd = 18446744073709551615 and mbs = 10 and payload = 0
      and rest = "[]" and ?ms0.0 = "[]" and compatible = always_compatible, OF a]
  have y: "merge_loop always_compatible (steady 5) 10 18446744073709551615 0 0
             future_payloads [2] [] = Inr (future_payloads, [2], [])"
    by (simp add: s steady_def)
  from a x y show ?thesis by blast
qed

text \<open>
  The claim as it was stated says that such a candidate is past any delay. Payload 1 is
  stamped later than the clock shows and its age is 6, not more than the delay of 100;
  payload 2 is stamped 5 later than the clock shows and its age is not more than the
  largest delay. Neither is merged.
\<close>

theorem future_payload_not_aged:
  "steady 5 0 < BatcherStartNs (future_payloads (Suc 0)) \<and>
   steady 5 0 - BatcherStartNs (future_payloads (Suc 0)) = 6 \<and>
   merge_loop always_compatible (steady 5) 10 100 0 0 future_payloads [Suc 0] [] =
     Inr (future_payloads, [Suc 0], []) \<and>
   steady 5 0 < BatcherStartNs (future_payloads 2) \<and>
   merge_loop always_compatible (steady 5) 10 18446744073709551615 0 0 future_payloads [2] [] =
     Inr (future_payloads, [2], [])"
  by (simp add: future_payloads_def steady_def)

end
